theory Spec2Isabelle
  imports Main "HOL-Library.Sublist"
begin

unbundle bit_operations_syntax

section \<open>Data model of \<^verbatim>\<open>SixelConverter\<close> (src/sixel/converter.py)\<close>

text \<open>
  Exceptions the encoder can raise once the converter object exists: a read past the end
  of a sequence, and a read of the attribute \<^verbatim>\<open>rawdata\<close>, which the constructor
  only sets when \<^verbatim>\<open>alpha_threshold > 0\<close>.
\<close>

datatype error = IndexError | AttributeError

type_synonym rgba = "nat \<times> nat \<times> nat \<times> nat"

text \<open>A Run is a pair (sixel bitmask, repeat count); a Color Node a colour with its Runs.\<close>

type_synonym run = "nat \<times> nat"
type_synonym node = "nat \<times> run list"

text \<open>
  The fields of the object after \<^verbatim>\<open>__init__\<close>. The image library calls of the
  constructor are outside the model; \<open>ncolor\<close> is \<^verbatim>\<open>_ncolor\<close>, \<open>f8bit\<close> decides
  \<^verbatim>\<open>DCS\<close> and \<^verbatim>\<open>ST\<close>, and \<open>rawdata\<close> is \<open>None\<close> when the attribute was never
  assigned.
\<close>

record converter =
  f8bit :: bool
  chromakey :: bool
  alpha_threshold :: int
  ncolor :: nat
  palette :: "nat list"
  data :: "nat list"
  width :: nat
  height :: nat
  rawdata :: "rgba list option"

definition DCS :: "converter \<Rightarrow> string" where
  "DCS c = (if f8bit c then [char_of (0x90 :: nat)] else [char_of (0x1b :: nat), CHR ''P''])"

definition ST :: "converter \<Rightarrow> string" where
  "ST c = (if f8bit c then [char_of (0x9c :: nat)] else [char_of (0x1b :: nat), CHR 0x5C])"

text \<open>Python sequence indexing with a non-negative index.\<close>

definition index :: "'a list \<Rightarrow> nat \<Rightarrow> error + 'a" where
  "index xs i = (if i < length xs then Inr (xs ! i) else Inl IndexError)"

text \<open>The sentinel of \<^verbatim>\<open>__write_body_bandwise\<close> for "background / no pixel set".\<close>

definition BG :: nat where
  "BG = 256"

text \<open>
  \<^verbatim>\<open>get_pixel(p)\<close>: the closure over \<^verbatim>\<open>rawdata\<close>, the threshold and
  \<^verbatim>\<open>data\<close>.
\<close>

definition get_pixel :: "int \<Rightarrow> nat list \<Rightarrow> rgba list option \<Rightarrow> nat \<Rightarrow> error + nat" where
  "get_pixel thr dat raw p =
     (case raw of
        None \<Rightarrow> index dat p
      | Some rd \<Rightarrow>
          (case index rd p of
             Inl e \<Rightarrow> Inl e
           | Inr (r, g, b, a) \<Rightarrow> if int a < thr then Inr BG else index dat p))"

section \<open>The band encoder: \<^verbatim>\<open>add_node\<close>\<close>

text \<open>
  \<^verbatim>\<open>add_node(color, start_x)\<close> with its two loops. The closure variables
  \<^verbatim>\<open>get_pixel\<close>, \<^verbatim>\<open>width\<close>, \<^verbatim>\<open>y\<close> and \<^verbatim>\<open>band\<close> are the parameters
  \<open>gp w y band\<close>; the shared mutable \<^verbatim>\<open>seen\<close> and \<^verbatim>\<open>buf\<close> are passed in and
  returned. \<open>add_node_rows\<close> is the loop over \<^verbatim>\<open>i\<close> (it carries \<^verbatim>\<open>six\<close>),
  \<open>add_node_cols\<close> the loop over \<^verbatim>\<open>x\<close> (it carries \<^verbatim>\<open>cache\<close>,
  \<^verbatim>\<open>run\<close> and \<^verbatim>\<open>nodes\<close>). A call nests at most once per colour of the
  band, at most 256 deep for palette indices, so Python's recursion limit is left out.
\<close>

function
  add_node :: "(nat \<Rightarrow> error + nat) \<Rightarrow> nat \<Rightarrow> nat \<Rightarrow> nat \<Rightarrow> nat \<Rightarrow> nat \<Rightarrow> nat set \<Rightarrow> node list
     \<Rightarrow> error + (nat set \<times> node list)"
and
  add_node_cols :: "(nat \<Rightarrow> error + nat) \<Rightarrow> nat \<Rightarrow> nat \<Rightarrow> nat \<Rightarrow> nat \<Rightarrow> nat \<Rightarrow> nat option \<Rightarrow> nat
     \<Rightarrow> run list \<Rightarrow> nat set \<Rightarrow> node list
     \<Rightarrow> error + (nat option \<times> nat \<times> run list \<times> nat set \<times> node list)"
and
  add_node_rows :: "(nat \<Rightarrow> error + nat) \<Rightarrow> nat \<Rightarrow> nat \<Rightarrow> nat \<Rightarrow> nat \<Rightarrow> nat \<Rightarrow> nat \<Rightarrow> nat
     \<Rightarrow> nat set \<Rightarrow> node list \<Rightarrow> error + (nat \<times> nat set \<times> node list)"
where
  "add_node gp w y band color start_x seen buf =
     (case add_node_cols gp w y band color start_x None 0
             (if start_x \<noteq> 0 then [(0, start_x)] else []) seen buf of
        Inl e \<Rightarrow> Inl e
      | Inr (cache, run, nodes, seen', buf') \<Rightarrow>
          Inr (seen', buf' @ [(color,
                 (case cache of
                    None \<Rightarrow> nodes
                  | Some c \<Rightarrow> if run \<noteq> 0 then nodes @ [(c, run)] else nodes))]))"
| "add_node_cols gp w y band color x cache run nodes seen buf =
     (if x < w then
        (case add_node_rows gp w y band color x 0 0 seen buf of
           Inl e \<Rightarrow> Inl e
         | Inr (six, seen', buf') \<Rightarrow>
             (case cache of
                None \<Rightarrow> add_node_cols gp w y band color (x + 1) (Some six) 1 nodes seen' buf'
              | Some c \<Rightarrow>
                  if six = c
                  then add_node_cols gp w y band color (x + 1) cache (run + 1) nodes seen' buf'
                  else add_node_cols gp w y band color (x + 1) (Some six) 1
                         (nodes @ [(c, run)]) seen' buf'))
      else Inr (cache, run, nodes, seen, buf))"
| "add_node_rows gp w y band color x i six seen buf =
     (if i < band then
        (case gp (y * w + x + w * i) of
           Inl e \<Rightarrow> Inl e
         | Inr d \<Rightarrow>
             if d = BG then add_node_rows gp w y band color x (i + 1) six seen buf
             else if d = color
             then add_node_rows gp w y band color x (i + 1) (six OR push_bit i 1) seen buf
             else if d \<notin> seen then
               (case add_node gp w y band d x (insert d seen) buf of
                  Inl e \<Rightarrow> Inl e
                | Inr (seen', buf') \<Rightarrow> add_node_rows gp w y band color x (i + 1) six seen' buf')
             else add_node_rows gp w y band color x (i + 1) six seen buf)
      else Inr (six, seen, buf))"
  by pat_completeness auto

text \<open>
  Termination. Every nested call of \<open>add_node\<close> is made for a colour that is not yet in
  \<^verbatim>\<open>seen\<close> and that some pixel within reach of the scan carries, so the number
  of such colours outside \<^verbatim>\<open>seen\<close> decreases; the two loops count up to their
  bounds.
\<close>

definition band_colors :: "(nat \<Rightarrow> error + nat) \<Rightarrow> nat \<Rightarrow> nat \<Rightarrow> nat \<Rightarrow> nat \<Rightarrow> nat set" where
  "band_colors gp w y band x = {d. \<exists>p \<le> y * w + max x w + w * band. gp p = Inr d}"

definition add_node_measure ::
  "(nat \<Rightarrow> error + nat) \<Rightarrow> nat \<Rightarrow> nat \<Rightarrow> nat \<Rightarrow> nat \<Rightarrow> nat set \<Rightarrow> nat" where
  "add_node_measure gp w y band x seen = card (band_colors gp w y band x - seen)"

lemma finite_band_colors: "finite (band_colors gp w y band x)"
proof -
  have "band_colors gp w y band x \<subseteq>
      (\<lambda>p. case gp p of Inr d \<Rightarrow> d | Inl e \<Rightarrow> 0) ` {.. y * w + max x w + w * band}"
    by (force simp: band_colors_def image_iff)
  then show ?thesis by (rule finite_subset) simp
qed

lemma add_node_measure_mono:
  "seen \<subseteq> seen' \<Longrightarrow> add_node_measure gp w y band x seen' \<le> add_node_measure gp w y band x seen"
  unfolding add_node_measure_def
  by (rule card_mono) (auto simp: finite_band_colors)

lemma add_node_measure_Suc:
  "x < w \<Longrightarrow> add_node_measure gp w y band (Suc x) seen = add_node_measure gp w y band x seen"
  by (simp add: add_node_measure_def band_colors_def max_def)

lemma add_node_measure_insert:
  assumes "i < band" "gp (y * w + x + w * i) = Inr d" "d \<notin> seen"
  shows "add_node_measure gp w y band x (insert d seen) < add_node_measure gp w y band x seen"
proof -
  from \<open>i < band\<close> have "w * i \<le> w * band" by (intro mult_le_mono2) simp
  moreover have "x \<le> max x w" by simp
  ultimately have "y * w + x + w * i \<le> y * w + max x w + w * band" by linarith
  with assms have "d \<in> band_colors gp w y band x - seen"
    unfolding band_colors_def by blast
  moreover have "band_colors gp w y band x - insert d seen = (band_colors gp w y band x - seen) - {d}"
    by blast
  ultimately show ?thesis
    unfolding add_node_measure_def
    using card_Diff1_less [of "band_colors gp w y band x - seen" d]
    by (simp add: finite_band_colors)
qed

text \<open>Where the calls return, \<^verbatim>\<open>seen\<close> has only grown.\<close>

lemma seen_mono_dom:
  "add_node_add_node_cols_add_node_rows_dom (Inl (gp, w, y, band, color, start_x, seen, buf)) \<Longrightarrow>
     add_node gp w y band color start_x seen buf = Inr (seen', buf') \<Longrightarrow> seen \<subseteq> seen'"
  "add_node_add_node_cols_add_node_rows_dom
     (Inr (Inl (gp, w, y, band, color, x, cache, run, nodes, seen, buf))) \<Longrightarrow>
     add_node_cols gp w y band color x cache run nodes seen buf
       = Inr (cache', run', nodes', seen', buf') \<Longrightarrow> seen \<subseteq> seen'"
  "add_node_add_node_cols_add_node_rows_dom (Inr (Inr (gp, w, y, band, color, x, i, six, seen, buf))) \<Longrightarrow>
     add_node_rows gp w y band color x i six seen buf = Inr (six', seen', buf') \<Longrightarrow> seen \<subseteq> seen'"
proof (induct arbitrary: seen' buf' and cache' run' nodes' seen' buf' and six' seen' buf'
    rule: add_node_add_node_cols_add_node_rows.pinduct)
  case (1 gp w y band color start_x seen buf)
  then show ?case
    by (auto simp: add_node.psimps split: sum.splits prod.splits)
next
  case (2 gp w y band color x cache run nodes seen buf)
  show ?case
  proof (cases "x < w")
    case False
    with "2.prems" "2.hyps"(1) show ?thesis by (simp add: add_node_cols.psimps)
  next
    case True
    from "2.prems" "2.hyps"(1) True obtain six s1 b1 where
      r: "add_node_rows gp w y band color x 0 0 seen buf = Inr (six, s1, b1)"
      by (auto simp: add_node_cols.psimps split: sum.splits)
    from "2.hyps"(2) [OF True r] have a: "seen \<subseteq> s1" .
    show ?thesis
    proof (cases cache)
      case None
      with "2.prems" "2.hyps"(1) True r
      have "add_node_cols gp w y band color (x + 1) (Some six) 1 nodes s1 b1
             = Inr (cache', run', nodes', seen', buf')"
        by (simp add: add_node_cols.psimps)
      from "2.hyps"(3) [OF True r refl refl None this] a show ?thesis by blast
    next
      case (Some c)
      show ?thesis
      proof (cases "six = c")
        case eq: True
        with Some "2.prems" "2.hyps"(1) True r
        have "add_node_cols gp w y band color (x + 1) cache (run + 1) nodes s1 b1
             = Inr (cache', run', nodes', seen', buf')"
          by (simp add: add_node_cols.psimps)
        from "2.hyps"(4) [OF True r refl refl Some eq this] a show ?thesis by blast
      next
        case ne: False
        with Some "2.prems" "2.hyps"(1) True r
        have "add_node_cols gp w y band color (x + 1) (Some six) 1 (nodes @ [(c, run)]) s1 b1
             = Inr (cache', run', nodes', seen', buf')"
          by (simp add: add_node_cols.psimps)
        from "2.hyps"(5) [OF True r refl refl Some ne this] a show ?thesis by blast
      qed
    qed
  qed
next
  case (3 gp w y band color x i six seen buf)
  show ?case
  proof (cases "i < band")
    case False
    with "3.prems" "3.hyps"(1) show ?thesis by (simp add: add_node_rows.psimps)
  next
    case True
    from "3.prems" "3.hyps"(1) True obtain d where
      d: "gp (y * w + x + w * i) = Inr d"
      by (auto simp: add_node_rows.psimps split: sum.splits)
    consider (bg) "d = BG" | (own) "d \<noteq> BG" "d = color"
      | (new) "d \<noteq> BG" "d \<noteq> color" "d \<notin> seen"
      | (old) "d \<noteq> BG" "d \<noteq> color" "\<not> d \<notin> seen"
      by blast
    then show ?thesis
    proof cases
      case bg
      with "3.prems" "3.hyps"(1) True d
      have "add_node_rows gp w y band color x (i + 1) six seen buf = Inr (six', seen', buf')"
        by (simp add: add_node_rows.psimps)
      from "3.hyps"(2) [OF True d bg this] show ?thesis .
    next
      case own
      with "3.prems" "3.hyps"(1) True d
      have "add_node_rows gp w y band color x (i + 1) (six OR push_bit i 1) seen buf
          = Inr (six', seen', buf')"
        by (simp add: add_node_rows.psimps)
      from "3.hyps"(3) [OF True d own this] show ?thesis .
    next
      case new
      with "3.prems" "3.hyps"(1) True d obtain s1 b1 where
        r: "add_node gp w y band d x (insert d seen) buf = Inr (s1, b1)"
        by (auto simp: add_node_rows.psimps split: sum.splits)
      with new "3.prems" "3.hyps"(1) True d
      have c: "add_node_rows gp w y band color x (i + 1) six s1 b1 = Inr (six', seen', buf')"
        by (simp add: add_node_rows.psimps)
      from "3.hyps"(4) [OF True d new r] have "insert d seen \<subseteq> s1" .
      moreover from "3.hyps"(5) [OF True d new r refl c] have "s1 \<subseteq> seen'" .
      ultimately show ?thesis by blast
    next
      case old
      with "3.prems" "3.hyps"(1) True d
      have "add_node_rows gp w y band color x (i + 1) six seen buf = Inr (six', seen', buf')"
        by (simp add: add_node_rows.psimps)
      from "3.hyps"(6) [OF True d old this] show ?thesis .
    qed
  qed
qed

termination add_node
proof (relation "inv_image (less_than <*lex*> less_than <*lex*> less_than) (\<lambda>s. case s of
      Inl (gp, w, y, band, color, start_x, seen, buf) \<Rightarrow>
        (add_node_measure gp w y band start_x seen, w - start_x + 2, 0)
    | Inr (Inl (gp, w, y, band, color, x, cache, run, nodes, seen, buf)) \<Rightarrow>
        (add_node_measure gp w y band x seen, w - x + 1, 0)
    | Inr (Inr (gp, w, y, band, color, x, i, six, seen, buf)) \<Rightarrow>
        (add_node_measure gp w y band x seen, w - x, band - i + 1))", goal_cases)
  case 1
  show ?case by (intro wf_inv_image wf_lex_prod wf_less_than)
next
  case (2 gp w y band color start_x seen buf)
  show ?case by simp
next
  case (3 gp w y band color x cache run nodes seen buf)
  then show ?case by simp
next
  case (4 gp w y band color x cache run nodes seen buf r six rest seen' buf')
  then have "seen \<subseteq> seen'" by (auto dest: seen_mono_dom(3))
  from add_node_measure_mono [OF this, of gp w y band x] 4 show ?case
    by (auto simp: add_node_measure_Suc)
next
  case (5 gp w y band color x cache run nodes seen buf r six rest seen' buf' c)
  then have "seen \<subseteq> seen'" by (auto dest: seen_mono_dom(3))
  from add_node_measure_mono [OF this, of gp w y band x] 5 show ?case
    by (auto simp: add_node_measure_Suc)
next
  case (6 gp w y band color x cache run nodes seen buf r six rest seen' buf' c)
  then have "seen \<subseteq> seen'" by (auto dest: seen_mono_dom(3))
  from add_node_measure_mono [OF this, of gp w y band x] 6 show ?case
    by (auto simp: add_node_measure_Suc)
next
  case (7 gp w y band color x i six seen buf d)
  then show ?case by auto
next
  case (8 gp w y band color x i six seen buf d)
  then show ?case by auto
next
  case (9 gp w y band color x i six seen buf d)
  then show ?case by (simp add: add_node_measure_insert)
next
  case (10 gp w y band color x i six seen buf d r seen' buf')
  then have "insert d seen \<subseteq> seen'" by (auto dest: seen_mono_dom(1))
  then have "seen \<subseteq> seen'" by blast
  from add_node_measure_mono [OF this, of gp w y band x] 10 show ?case
    by auto
next
  case (11 gp w y band color x i six seen buf d)
  then show ?case by auto
qed

declare add_node.simps [simp del] add_node_cols.simps [simp del] add_node_rows.simps [simp del]

section \<open>One band: seeding and the buffer of Color Nodes\<close>

text \<open>
  The \<^verbatim>\<open>for x in range(width)\<close> scan of the \<^verbatim>\<open>else\<close> branch: the first
  column of the band's first row whose pixel is not \<open>BG\<close>, with that pixel.
\<close>

function scan_first :: "(nat \<Rightarrow> error + nat) \<Rightarrow> nat \<Rightarrow> nat \<Rightarrow> nat \<Rightarrow> error + (nat \<times> nat) option" where
  "scan_first gp w y x =
     (if x < w then
        (case gp (y * w + x) of
           Inl e \<Rightarrow> Inl e
         | Inr d \<Rightarrow> if d \<noteq> BG then Inr (Some (d, x)) else scan_first gp w y (x + 1))
      else Inr None)"
  by pat_completeness auto
termination
  by (relation "measure (\<lambda>(gp, w, y, x). w - x)") auto

declare scan_first.simps [simp del]

text \<open>
  The body of the loop over \<^verbatim>\<open>y\<close> up to the comment "Emit all colors for this
  band": \<^verbatim>\<open>buf\<close> and \<^verbatim>\<open>seen\<close> start empty, the first pixel of the band
  seeds \<open>add_node\<close>, or else the first visible pixel of the band's first row does.
\<close>

definition band_buf :: "(nat \<Rightarrow> error + nat) \<Rightarrow> nat \<Rightarrow> nat \<Rightarrow> nat \<Rightarrow> error + node list" where
  "band_buf gp w y band =
     (case gp (y * w) of
        Inl e \<Rightarrow> Inl e
      | Inr first \<Rightarrow>
          if first \<noteq> BG then
            (case add_node gp w y band first 0 {first} [] of
               Inl e \<Rightarrow> Inl e
             | Inr (seen, buf) \<Rightarrow> Inr buf)
          else
            (case scan_first gp w y 0 of
               Inl e \<Rightarrow> Inl e
             | Inr None \<Rightarrow> Inr []
             | Inr (Some (found, x)) \<Rightarrow>
                 (case add_node gp w y band found x {found} [] of
                    Inl e \<Rightarrow> Inl e
                  | Inr (seen, buf) \<Rightarrow> Inr buf)))"

section \<open>The sequence writer\<close>

text \<open>
  The output sink is the text written so far; \<^verbatim>\<open>output.write(s)\<close> appends. A
  writing method either returns with the sink it leaves, or raises with the sink as it
  stands at that moment.
\<close>

datatype outcome = Returned string | Raised error string

text \<open>The \<^verbatim>\<open>%d\<close> conversion of a non-negative integer.\<close>

fun dec :: "nat \<Rightarrow> string" where
  "dec n = (if n < 10 then [char_of (48 + n)] else dec (n div 10) @ [char_of (48 + n mod 10)])"

declare dec.simps [simp del]

text \<open>
  The emission loops of \<^verbatim>\<open>__write_body_bandwise\<close>: one Run, the Runs of a node,
  the nodes of \<^verbatim>\<open>buf\<close>. \<^verbatim>\<open>chr(0x3f + six)\<close> is a one-byte character for every
  \<open>six\<close> below 193, and \<^verbatim>\<open>'%c' % ord(ch)\<close> is \<^verbatim>\<open>ch\<close> again.
\<close>

definition write_run :: "run \<Rightarrow> string \<Rightarrow> string" where
  "write_run r out =
     (case r of (six, count) \<Rightarrow>
        let ch = char_of (0x3f + six) in
        if count < 4 then out @ replicate count ch
        else out @ ''!'' @ dec count @ [ch])"

primrec write_runs :: "run list \<Rightarrow> string \<Rightarrow> string" where
  "write_runs [] out = out"
| "write_runs (r # rs) out = write_runs rs (write_run r out)"

primrec write_buf :: "node list \<Rightarrow> string \<Rightarrow> string" where
  "write_buf [] out = out"
| "write_buf (n # ns) out =
     write_buf ns (write_runs (snd n) (out @ ''#'' @ dec (fst n)) @ ''$'')"

text \<open>Python's \<^verbatim>\<open>range(start, stop, step)\<close> for a positive step.\<close>

function py_range :: "nat \<Rightarrow> nat \<Rightarrow> nat \<Rightarrow> nat list" where
  "py_range start stop step =
     (if start < stop \<and> 0 < step then start # py_range (start + step) stop step else [])"
  by pat_completeness auto
termination
  by (relation "measure (\<lambda>(start, stop, step). stop - start)") auto

declare py_range.simps [simp del]

text \<open>
  The loop \<^verbatim>\<open>for y in range(0, height, 6)\<close> over the values still to come. A band
  whose scan raises has written nothing of its own: its nodes are written only once
  \<^verbatim>\<open>buf\<close> is complete.
\<close>

primrec write_bands :: "(nat \<Rightarrow> error + nat) \<Rightarrow> nat \<Rightarrow> nat \<Rightarrow> nat list \<Rightarrow> string \<Rightarrow> outcome" where
  "write_bands gp w h [] out = Returned out"
| "write_bands gp w h (y # ys) out =
     (case band_buf gp w y (min 6 (h - y)) of
        Inl e \<Rightarrow> Raised e out
      | Inr buf \<Rightarrow>
          write_bands gp w h ys
            (if y + 6 < h then write_buf buf out @ ''-'' else write_buf buf out))"

text \<open>The palette loop \<^verbatim>\<open>for n in range(0, self._ncolor)\<close>, from \<open>n\<close> on.\<close>

function write_palette :: "nat list \<Rightarrow> nat \<Rightarrow> nat \<Rightarrow> string \<Rightarrow> outcome" where
  "write_palette pal ncol n out =
     (if n < ncol then
        (case index pal (n * 3 + 0) of
           Inl e \<Rightarrow> Raised e out
         | Inr r \<Rightarrow>
             (case index pal (n * 3 + 1) of
                Inl e \<Rightarrow> Raised e out
              | Inr g \<Rightarrow>
                  (case index pal (n * 3 + 2) of
                     Inl e \<Rightarrow> Raised e out
                   | Inr b \<Rightarrow>
                       write_palette pal ncol (n + 1)
                         (out @ ''#'' @ dec n @ '';2;'' @ dec (r * 100 div 256) @ '';''
                            @ dec (g * 100 div 256) @ '';'' @ dec (b * 100 div 256)))))
      else Returned out)"
  by pat_completeness auto
termination
  by (relation "measure (\<lambda>(pal, ncol, n, out). ncol - n)") auto

declare write_palette.simps [simp del]

definition write_body_bandwise ::
  "converter \<Rightarrow> nat list \<Rightarrow> rgba list option \<Rightarrow> string \<Rightarrow> outcome" where
  "write_body_bandwise c dat raw out =
     (case write_palette (palette c) (ncolor c) 0 out of
        Raised e out' \<Rightarrow> Raised e out'
      | Returned out' \<Rightarrow>
          write_bands (get_pixel (alpha_threshold c) dat raw) (width c) (height c)
            (py_range 0 (height c) 6) out')"

definition write_header :: "converter \<Rightarrow> string \<Rightarrow> string" where
  "write_header c out =
     (let aspect_ratio = 7;
          background_option = (if chromakey c then 2 else 1);
          dpi = 75
      in out @ DCS c @ dec aspect_ratio @ '';'' @ dec background_option @ '';'' @ dec dpi
           @ [CHR ''q'', CHR 0x22] @ ''1;1;'' @ dec (width c) @ '';'' @ dec (height c))"

definition write_body_section :: "converter \<Rightarrow> string \<Rightarrow> outcome" where
  "write_body_section c out =
     (if alpha_threshold c > 0 then
        (case rawdata c of
           None \<Rightarrow> Raised AttributeError out
         | Some rd \<Rightarrow> write_body_bandwise c (data c) (Some rd) out)
      else write_body_bandwise c (data c) None out)"

definition write_terminator :: "converter \<Rightarrow> string \<Rightarrow> string" where
  "write_terminator c out = out @ ST c"

text \<open>
  \<^verbatim>\<open>write(output, body_only)\<close>; the name \<open>write\<close> is taken by an Isabelle
  command.
\<close>

definition write_sixel :: "converter \<Rightarrow> bool \<Rightarrow> string \<Rightarrow> outcome" where
  "write_sixel c body_only out =
     (case write_body_section c (if \<not> body_only then write_header c out else out) of
        Raised e out' \<Rightarrow> Raised e out'
      | Returned out' \<Rightarrow> Returned (if \<not> body_only then write_terminator c out' else out'))"

text \<open>\<^verbatim>\<open>getvalue\<close>: \<open>write_sixel\<close> into a fresh \<^verbatim>\<open>StringIO\<close>.\<close>

definition getvalue :: "converter \<Rightarrow> error + string" where
  "getvalue c = (case write_sixel c False [] of Raised e out \<Rightarrow> Inl e | Returned out \<Rightarrow> Inr out)"

section \<open>Notions used to state the properties\<close>

text \<open>The sink a call of a writing method leaves behind, however the call ends.\<close>

definition sink :: "outcome \<Rightarrow> string" where
  "sink r = (case r of Returned out \<Rightarrow> out | Raised e out \<Rightarrow> out)"

text \<open>
  The 2\<times>2 image of the specification's end-to-end scenario: two palette colours, pixel
  buffer \<^verbatim>\<open>[0,1,1,0]\<close>, no alpha handling.
\<close>

definition image_2x2 :: converter where
  "image_2x2 =
     \<lparr>f8bit = False, chromakey = False, alpha_threshold = 0, ncolor = 2,
      palette = [0, 0, 0, 255, 255, 255], data = [0, 1, 1, 0], width = 2, height = 2,
      rawdata = None\<rparr>"

text \<open>
  What the two loops of \<open>add_node\<close> compute, written as functions of the pixels alone:
  the bitmask of one column, one step of the run-length state \<^verbatim>\<open>(cache, run, nodes)\<close>,
  the closing of the open Run, and the Runs of a node scanned from column \<open>s\<close>.
\<close>

definition column_six :: "(nat \<Rightarrow> error + nat) \<Rightarrow> nat \<Rightarrow> nat \<Rightarrow> nat \<Rightarrow> nat \<Rightarrow> nat \<Rightarrow> nat" where
  "column_six gp w y band color x =
     horner_sum of_bool 2 (map (\<lambda>i. gp (y * w + x + w * i) = Inr color) [0..<band])"

definition rle_step :: "nat option \<times> nat \<times> run list \<Rightarrow> nat \<Rightarrow> nat option \<times> nat \<times> run list" where
  "rle_step st six =
     (case st of (cache, run, nodes) \<Rightarrow>
        (case cache of
           None \<Rightarrow> (Some six, 1, nodes)
         | Some c \<Rightarrow> if six = c then (cache, run + 1, nodes) else (Some six, 1, nodes @ [(c, run)])))"

definition finish_runs :: "nat option \<times> nat \<times> run list \<Rightarrow> run list" where
  "finish_runs st =
     (case st of (cache, run, nodes) \<Rightarrow>
        (case cache of None \<Rightarrow> nodes | Some c \<Rightarrow> if run \<noteq> 0 then nodes @ [(c, run)] else nodes))"

definition node_runs :: "(nat \<Rightarrow> error + nat) \<Rightarrow> nat \<Rightarrow> nat \<Rightarrow> nat \<Rightarrow> nat \<Rightarrow> nat \<Rightarrow> run list" where
  "node_runs gp w y band color s =
     finish_runs (foldl rle_step (None, 0, if s \<noteq> 0 then [(0, s)] else [])
        (map (column_six gp w y band color) [s..<w]))"

text \<open>
  A start column as \<open>add_node\<close> receives it: a column in which the colour occurs
  (or 0, in an image of width 0). \<open>new_nodes\<close> describes the nodes a call appends:
  one for each colour it adds to \<^verbatim>\<open>seen\<close>.
\<close>

definition start_ok :: "(nat \<Rightarrow> error + nat) \<Rightarrow> nat \<Rightarrow> nat \<Rightarrow> nat \<Rightarrow> nat \<Rightarrow> nat \<Rightarrow> bool" where
  "start_ok gp w y band color s =
     ((s = 0 \<and> w = 0) \<or> (s < w \<and> (\<exists>i<band. gp (y * w + s + w * i) = Inr color)))"

definition good_node :: "(nat \<Rightarrow> error + nat) \<Rightarrow> nat \<Rightarrow> nat \<Rightarrow> nat \<Rightarrow> node \<Rightarrow> bool" where
  "good_node gp w y band n =
     (fst n \<noteq> BG \<and> (\<exists>s. start_ok gp w y band (fst n) s \<and> snd n = node_runs gp w y band (fst n) s))"

definition new_nodes :: "(node \<Rightarrow> bool) \<Rightarrow> nat set \<Rightarrow> nat set \<Rightarrow> node list \<Rightarrow> bool" where
  "new_nodes G seen seen' mid =
     (seen \<subseteq> seen' \<and> distinct (map fst mid) \<and> set (map fst mid) = seen' - seen \<and> (\<forall>n\<in>set mid. G n))"

text \<open>
  Modelled from the spec: the reference decoder of the round-trip check, which the source
  does not contain. A node's Runs are expanded to one bitmask per column; the node paints
  sub-row \<open>i\<close> of column \<open>x\<close> when bit \<open>i\<close> of the bitmask at \<open>x\<close> is set.
\<close>

definition expand_runs :: "run list \<Rightarrow> nat list" where
  "expand_runs rs = concat (map (\<lambda>r. replicate (snd r) (fst r)) rs)"

definition node_bit :: "node \<Rightarrow> nat \<Rightarrow> nat \<Rightarrow> bool" where
  "node_bit n x i = (x < length (expand_runs (snd n)) \<and> bit (expand_runs (snd n) ! x) i)"

text \<open>
  Modelled from the spec: the reference decoder of a band. Nodes are painted in the order
  of the buffer, so a pixel shows the colour of the last node that paints it, or nothing.
\<close>

definition decode_pixel :: "node list \<Rightarrow> nat \<Rightarrow> nat \<Rightarrow> nat option" where
  "decode_pixel buf x i =
     (case filter (\<lambda>n. node_bit n x i) buf of [] \<Rightarrow> None | n # ns \<Rightarrow> Some (fst (last (n # ns))))"

text \<open>Runs as the encoder is to leave them: no empty Run, no two neighbours alike.\<close>

definition wf_runs :: "run list \<Rightarrow> bool" where
  "wf_runs rs = ((\<forall>r\<in>set rs. snd r \<noteq> 0) \<and> distinct_adj (map fst rs))"

definition open_run :: "nat option \<times> nat \<times> run list \<Rightarrow> bool" where
  "open_run st = (case st of (cache, run, nodes) \<Rightarrow> cache \<noteq> None \<and> run \<noteq> 0)"

text \<open>
  The colour that seeds a band and its column: the band's first pixel, or else the first
  visible pixel of the band's first row.
\<close>

definition band_seed :: "(nat \<Rightarrow> error + nat) \<Rightarrow> nat \<Rightarrow> nat \<Rightarrow> error + (nat \<times> nat) option" where
  "band_seed gp w y =
     (case gp (y * w) of
        Inl e \<Rightarrow> Inl e
      | Inr first \<Rightarrow> if first \<noteq> BG then Inr (Some (first, 0)) else scan_first gp w y 0)"

text \<open>The text written for the band that starts at row \<open>y\<close>, separator excluded.\<close>

definition band_text :: "(nat \<Rightarrow> error + nat) \<Rightarrow> nat \<Rightarrow> nat \<Rightarrow> nat \<Rightarrow> string" where
  "band_text gp w h y =
     (case band_buf gp w y (min 6 (h - y)) of Inl e \<Rightarrow> [] | Inr buf \<Rightarrow> write_buf buf [])"

text \<open>
  A 6\<times>2 image with five colours, each first met one column further right, and a
  1\<times>14 image of three bands whose middle band is fully transparent.
\<close>

definition band_6x2 :: "nat \<Rightarrow> error + nat" where
  "band_6x2 = get_pixel 0 [0, 1, 2, 0, 3, 3, 0, 0, 0, 0, 0, 4] None"

definition image_1x14 :: converter where
  "image_1x14 =
     \<lparr>f8bit = False, chromakey = False, alpha_threshold = 128, ncolor = 2,
      palette = [0, 0, 0, 255, 255, 255],
      data = [0, 1, 0, 0, 0, 0, 0, 0, 0, 0, 0, 0, 1, 1], width = 1, height = 14,
      rawdata = Some [(0, 0, 0, 255), (0, 0, 0, 255), (0, 0, 0, 0), (0, 0, 0, 0), (0, 0, 0, 0),
        (0, 0, 0, 0), (0, 0, 0, 0), (0, 0, 0, 0), (0, 0, 0, 0), (0, 0, 0, 0), (0, 0, 0, 0),
        (0, 0, 0, 0), (0, 0, 0, 255), (0, 0, 0, 255)]\<rparr>"

text \<open>
  Bookkeeping of the scan: every visible colour of the columns \<open>lo \<le> x < hi\<close> (of
  column \<open>x\<close> from sub-row \<open>i\<close> on) is in \<^verbatim>\<open>seen\<close>.
\<close>

definition covered :: "(nat \<Rightarrow> error + nat) \<Rightarrow> nat \<Rightarrow> nat \<Rightarrow> nat \<Rightarrow> nat set \<Rightarrow> nat \<Rightarrow> nat \<Rightarrow> bool" where
  "covered gp w y band seen lo hi =
     (\<forall>x j d. lo \<le> x \<and> x < hi \<and> x < w \<and> j < band \<and> gp (y * w + x + w * j) = Inr d \<and> d \<noteq> BG
        \<longrightarrow> d \<in> seen)"

definition covered_col :: "(nat \<Rightarrow> error + nat) \<Rightarrow> nat \<Rightarrow> nat \<Rightarrow> nat \<Rightarrow> nat set \<Rightarrow> nat \<Rightarrow> nat \<Rightarrow> bool" where
  "covered_col gp w y band seen x i =
     (\<forall>j d. i \<le> j \<and> j < band \<and> gp (y * w + x + w * j) = Inr d \<and> d \<noteq> BG \<longrightarrow> d \<in> seen)"

text \<open>
  The column at which a node's colour first shows in its Runs: the number of leading
  zero bitmasks. \<open>no_earlier\<close> says that the colour occurs in no column from \<open>x0\<close>
  up to there; \<open>chain\<close> describes nodes appended from column \<open>x\<close> on.
\<close>

definition start_column :: "node \<Rightarrow> nat" where
  "start_column n = length (takeWhile (\<lambda>v. v = 0) (expand_runs (snd n)))"

definition no_earlier :: "(nat \<Rightarrow> error + nat) \<Rightarrow> nat \<Rightarrow> nat \<Rightarrow> nat \<Rightarrow> nat \<Rightarrow> node \<Rightarrow> bool" where
  "no_earlier gp w y band x0 n =
     (\<forall>x j. x0 \<le> x \<and> x < start_column n \<and> j < band \<longrightarrow> gp (y * w + x + w * j) \<noteq> Inr (fst n))"

definition chain :: "(nat \<Rightarrow> error + nat) \<Rightarrow> nat \<Rightarrow> nat \<Rightarrow> nat \<Rightarrow> nat \<Rightarrow> nat \<Rightarrow> node list \<Rightarrow> bool" where
  "chain gp w y band x0 x mid =
     (sorted_wrt (\<ge>) (map start_column mid)
      \<and> (\<forall>n\<in>set mid. x \<le> start_column n \<and> no_earlier gp w y band x0 n))"

text \<open>
  The order in which a scan that starts at column \<open>x0\<close> reads the pixels of a band:
  column by column, and top to bottom within a column. \<open>first_met\<close> is the first
  position of that order whose pixel has the colour \<open>c\<close>, the position at which the
  colour is discovered; \<open>met_before\<close> compares two colours by it.
\<close>

definition scan_positions :: "nat \<Rightarrow> nat \<Rightarrow> nat \<Rightarrow> (nat \<times> nat) list" where
  "scan_positions w band x0 = concat (map (\<lambda>x. map (\<lambda>i. (x, i)) [0..<band]) [x0..<w])"

definition first_met :: "(nat \<Rightarrow> error + nat) \<Rightarrow> nat \<Rightarrow> nat \<Rightarrow> nat \<Rightarrow> nat \<Rightarrow> nat \<Rightarrow> (nat \<times> nat) option" where
  "first_met gp w y band x0 c =
     find (\<lambda>p. gp (y * w + fst p + w * snd p) = Inr c) (scan_positions w band x0)"

definition pos_less :: "nat \<times> nat \<Rightarrow> nat \<times> nat \<Rightarrow> bool" where
  "pos_less p q = (fst p < fst q \<or> (fst p = fst q \<and> snd p < snd q))"

definition met_before :: "(nat \<Rightarrow> error + nat) \<Rightarrow> nat \<Rightarrow> nat \<Rightarrow> nat \<Rightarrow> nat \<Rightarrow> nat \<Rightarrow> nat \<Rightarrow> bool" where
  "met_before gp w y band x0 c d =
     (case first_met gp w y band x0 c of
        None \<Rightarrow> False
      | Some p \<Rightarrow> (case first_met gp w y band x0 d of None \<Rightarrow> False | Some q \<Rightarrow> pos_less p q))"

text \<open>
  More bookkeeping of the scan: \<open>col_prefix\<close> says that the visible colours of column
  \<open>x\<close> above sub-row \<open>i\<close> are in \<^verbatim>\<open>seen\<close>; \<open>lifo\<close> describes appended nodes
  each of which precedes the nodes of all colours met before its own, and starts at the
  column where its colour was first met.
\<close>

definition col_prefix :: "(nat \<Rightarrow> error + nat) \<Rightarrow> nat \<Rightarrow> nat \<Rightarrow> nat \<Rightarrow> nat set \<Rightarrow> nat \<Rightarrow> nat \<Rightarrow> bool" where
  "col_prefix gp w y band seen x i =
     (\<forall>j d. j < i \<and> j < band \<and> gp (y * w + x + w * j) = Inr d \<and> d \<noteq> BG \<longrightarrow> d \<in> seen)"

definition lifo :: "(nat \<Rightarrow> error + nat) \<Rightarrow> nat \<Rightarrow> nat \<Rightarrow> nat \<Rightarrow> nat \<Rightarrow> node list \<Rightarrow> bool" where
  "lifo gp w y band x0 mid =
     (sorted_wrt (\<lambda>m n. met_before gp w y band x0 (fst n) (fst m)) mid
      \<and> (\<forall>n\<in>set mid. \<exists>i. first_met gp w y band x0 (fst n) = Some (start_column n, i)))"

text \<open>
  A 2\<times>3 band with five colours: column 0 holds the colours 0, 1, 2 from top to bottom,
  column 1 the colours 3, 3, 4.
\<close>

definition band_2x3 :: "nat \<Rightarrow> error + nat" where
  "band_2x3 = get_pixel 0 [0, 3, 1, 3, 2, 4] None"

text \<open>Every pixel of the band can be read.\<close>

definition readable :: "(nat \<Rightarrow> error + nat) \<Rightarrow> nat \<Rightarrow> nat \<Rightarrow> nat \<Rightarrow> bool" where
  "readable gp w y band = (\<forall>x j. x < w \<and> j < band \<longrightarrow> \<not> isl (gp (y * w + x + w * j)))"

text \<open>
  A 2\<times>2 band with alpha handling whose top-left pixel is transparent: row 0 is
  (transparent, colour 1), row 1 is (colour 2, colour 1). Pixel index 2 is column 0 of
  sub-row 1. And the 2\<times>2 image with a pixel buffer of three entries.
\<close>

definition band_hidden :: "nat \<Rightarrow> error + nat" where
  "band_hidden =
     get_pixel 128 [1, 1, 2, 1] (Some [(0, 0, 0, 0), (0, 0, 0, 255), (0, 0, 0, 255), (0, 0, 0, 255)])"

definition image_short :: converter where
  "image_short = image_2x2\<lparr>data := [0, 1, 1]\<rparr>"

text \<open>
  The pixel reader that \<^verbatim>\<open>write\<close> hands to the band encoder: the raw RGBA data is
  consulted only when \<^verbatim>\<open>alpha_threshold\<close> is positive.
\<close>

definition pixel_reader :: "converter \<Rightarrow> nat \<Rightarrow> error + nat" where
  "pixel_reader c =
     get_pixel (alpha_threshold c) (data c) (if 0 < alpha_threshold c then rawdata c else None)"

section \<open>The emitted text\<close>

lemmas char_eval = char_of_def bit_iff_odd

text \<open>The encoder run on the example images.\<close>

lemmas band_eval = band_buf_def get_pixel_def index_def BG_def scan_first.simps
  add_node.simps add_node_cols.simps add_node_rows.simps

lemma band_buf_6x2:
  "band_buf band_6x2 6 0 2 =
     Inr [(4, [(0, 5), (2, 1)]), (3, [(0, 4), (1, 2)]), (2, [(0, 2), (1, 1), (0, 3)]),
          (1, [(0, 1), (1, 1), (0, 4)]), (0, [(3, 1), (2, 2), (3, 1), (2, 1), (0, 1)])]"
  by (simp add: band_6x2_def band_eval)

lemma bands_1x14:
  "write_bands (get_pixel (alpha_threshold image_1x14) (data image_1x14) (rawdata image_1x14))
     (width image_1x14) (height image_1x14) (py_range 0 (height image_1x14) 6) []
   = Returned ''#1A$#0@$--#1B$''"
  by (simp add: image_1x14_def py_range.simps band_eval write_run_def dec.simps char_eval)


text \<open>\<open>dec\<close> writes the decimal digits of its argument.\<close>

lemma dec_value: "foldl (\<lambda>a ch. 10 * a + (of_char ch - 48)) 0 (dec n) = n"
proof (induction n rule: dec.induct)
  case (1 n)
  have d: "of_char (char_of (48 + k) :: char) - 48 = k" if "k < 10" for k :: nat
    using that by (simp add: of_char_of)
  show ?case
  proof (cases "n < 10")
    case True
    with d [of n] show ?thesis by (simp add: dec.simps [of n])
  next
    case False
    with "1.IH" d [of "n mod 10"] show ?thesis by (simp add: dec.simps [of n])
  qed
qed

lemma write_run_append: "write_run r out = out @ write_run r []"
  by (cases r) (simp add: write_run_def Let_def)

lemma write_runs_text: "write_runs rs out = out @ concat (map (\<lambda>r. write_run r []) rs)"
proof (induction rs arbitrary: out)
  case Nil
  show ?case by simp
next
  case (Cons r rs)
  have "write_runs (r # rs) out = write_runs rs (write_run r out)" by simp
  also have "\<dots> = write_run r out @ concat (map (\<lambda>r. write_run r []) rs)" by (rule Cons.IH)
  also have "write_run r out = out @ write_run r []" by (rule write_run_append)
  finally show ?case by simp
qed

lemma write_buf_text:
  "write_buf buf out =
     out @ concat (map (\<lambda>n. ''#'' @ dec (fst n) @ concat (map (\<lambda>r. write_run r []) (snd n)) @ ''$'') buf)"
  by (induction buf arbitrary: out) (simp_all add: write_runs_text)

text \<open>
  Claim C7. The text written for a band is, node by node, \<^verbatim>\<open>#<color>\<close>, the text of
  each Run and \<^verbatim>\<open>$\<close>; the text of a Run \<open>(bitmask, count)\<close> is the character
  \<^verbatim>\<open>chr(0x3F + bitmask)\<close> repeated \<open>count\<close> times when \<open>count < 4\<close>, and
  \<^verbatim>\<open>!\<close>, the decimal count and one such character when \<open>count \<ge> 4\<close>.
\<close>

theorem run_text_law:
  "write_buf buf out =
     out @ concat (map (\<lambda>n. ''#'' @ dec (fst n) @ concat (map (\<lambda>r. write_run r []) (snd n)) @ ''$'') buf)
   \<and> (count < 4 \<longrightarrow> write_run (bitmask, count) [] = replicate count (char_of (0x3F + bitmask)))
   \<and> (4 \<le> count \<longrightarrow> write_run (bitmask, count) [] = ''!'' @ dec count @ [char_of (0x3F + bitmask)])"
  by (simp add: write_buf_text write_run_def)

theorem run_text_law_witness:
  "write_buf [(1, [(2, 1), (1, 5)])] ''x'' = ''x#1A!5@$''
   \<and> write_run (2, 3) [] = ''AAA'' \<and> write_run (1, 12) [] = ''!12@''"
  using run_text_law [of "[(1, [(2, 1), (1, 5)])]" "''x''" 3 2] run_text_law [of "[]" "[]" 12 1]
  by (simp add: dec.simps write_run_def char_eval numeral_3_eq_3)

text \<open>Writing only ever appends to the sink.\<close>

lemma prefix_sink_write_palette: "prefix out (sink (write_palette pal ncol n out))"
proof (induction pal ncol n out rule: write_palette.induct)
  case (1 pal ncol n out)
  show ?case
  proof (cases "n < ncol")
    case False
    then show ?thesis by (simp add: write_palette.simps [of pal ncol n out] sink_def)
  next
    case True
    show ?thesis
    proof (cases "index pal (n * 3 + 0)")
      case (Inl e)
      with True show ?thesis by (simp add: write_palette.simps [of pal ncol n out] sink_def)
    next
      case r: (Inr r)
      show ?thesis
      proof (cases "index pal (n * 3 + 1)")
        case (Inl e)
        with True r show ?thesis by (simp add: write_palette.simps [of pal ncol n out] sink_def)
      next
        case g: (Inr g)
        show ?thesis
        proof (cases "index pal (n * 3 + 2)")
          case (Inl e)
          with True r g show ?thesis by (simp add: write_palette.simps [of pal ncol n out] sink_def)
        next
          case b: (Inr b)
          from "1.IH" [OF True r g b] have "prefix (out @ ''#'' @ dec n @ '';2;'' @ dec (r * 100 div 256) @ '';''
                            @ dec (g * 100 div 256) @ '';'' @ dec (b * 100 div 256))
             (sink (write_palette pal ncol n out))"
            using True r g b by (simp add: write_palette.simps [of pal ncol n out])
          then show ?thesis by (rule append_prefixD)
        qed
      qed
    qed
  qed
qed

lemma prefix_sink_write_bands: "prefix out (sink (write_bands gp w h ys out))"
proof (induction ys arbitrary: out)
  case Nil
  show ?case by (simp add: sink_def)
next
  case (Cons y ys)
  show ?case
  proof (cases "band_buf gp w y (min 6 (h - y))")
    case (Inl e)
    then show ?thesis by (simp add: sink_def)
  next
    case (Inr buf)
    have "prefix (if y + 6 < h then write_buf buf out @ ''-'' else write_buf buf out)
       (sink (write_bands gp w h (y # ys) out))"
      using Cons.IH [of "if y + 6 < h then write_buf buf out @ ''-'' else write_buf buf out"] Inr
      by simp
    moreover have "prefix out (if y + 6 < h then write_buf buf out @ ''-'' else write_buf buf out)"
      by (simp add: write_buf_text)
    ultimately show ?thesis by (rule prefix_order.trans [rotated])
  qed
qed

lemma prefix_sink_write_body_bandwise: "prefix out (sink (write_body_bandwise c dat raw out))"
proof (cases "write_palette (palette c) (ncolor c) 0 out")
  case (Returned out')
  with prefix_sink_write_palette [of out "palette c" "ncolor c" 0]
  have "prefix out out'" by (simp add: sink_def)
  moreover from Returned have "prefix out' (sink (write_body_bandwise c dat raw out))"
    by (simp add: write_body_bandwise_def prefix_sink_write_bands)
  ultimately show ?thesis by (rule prefix_order.trans)
next
  case (Raised e out')
  with prefix_sink_write_palette [of out "palette c" "ncolor c" 0]
  show ?thesis by (simp add: write_body_bandwise_def sink_def)
qed

lemma prefix_sink_write_body_section: "prefix out (sink (write_body_section c out))"
proof (cases "alpha_threshold c > 0")
  case False
  then show ?thesis by (simp add: write_body_section_def prefix_sink_write_body_bandwise)
next
  case True
  show ?thesis
  proof (cases "rawdata c")
    case None
    with True show ?thesis by (simp add: write_body_section_def sink_def)
  next
    case (Some rd)
    with True show ?thesis by (simp add: write_body_section_def prefix_sink_write_body_bandwise)
  qed
qed

lemma prefix_sink_write_sixel:
  "prefix (if body_only then out else write_header c out) (sink (write_sixel c body_only out))"
proof (cases "write_body_section c (if \<not> body_only then write_header c out else out)")
  case (Returned out')
  with prefix_sink_write_body_section [of "if \<not> body_only then write_header c out else out" c]
  show ?thesis
    by (auto simp: write_sixel_def sink_def write_terminator_def intro: prefix_order.trans)
next
  case (Raised e out')
  with prefix_sink_write_body_section [of "if \<not> body_only then write_header c out else out" c]
  show ?thesis
    by (auto simp: write_sixel_def sink_def)
qed

lemma write_header_text:
  "write_header c out =
     out @ DCS c @ ''7;'' @ (if chromakey c then ''2'' else ''1'') @ '';75q'' @ [CHR 0x22]
       @ ''1;1;'' @ dec (width c) @ '';'' @ dec (height c)"
  by (simp add: write_header_def dec.simps char_eval)

text \<open>
  Claim C9. Outside body-only mode the sink receives, right after the introducer, the
  header \<^verbatim>\<open>7;<bgFlag>;75q"1;1;<width>;<height>\<close>, with \<open>bgFlag\<close> 2 when the
  chroma key is enabled and 1 otherwise; this holds of every call, also one that raises
  later.
\<close>

theorem header_text:
  "prefix (out @ DCS c @ ''7;'' @ (if chromakey c then ''2'' else ''1'') @ '';75q'' @ [CHR 0x22]
       @ ''1;1;'' @ dec (width c) @ '';'' @ dec (height c)) (sink (write_sixel c False out))"
  using prefix_sink_write_sixel [of False out c] by (simp only: write_header_text if_False)


theorem header_text_witness:
  "prefix ([char_of (0x1b :: nat)] @ ''P7;1;75q'' @ [CHR 0x22] @ ''1;1;2;2'')
     (sink (write_sixel image_2x2 False []))
   \<and> prefix ([char_of (0x90 :: nat)] @ ''7;2;75q'' @ [CHR 0x22] @ ''1;1;2;2'')
     (sink (write_sixel (image_2x2\<lparr>f8bit := True, chromakey := True\<rparr>) False []))"
  using header_text [of "[]" image_2x2]
    header_text [of "[]" "image_2x2\<lparr>f8bit := True, chromakey := True\<rparr>"]
  by (simp add: image_2x2_def DCS_def dec.simps char_eval)

text \<open>More runs of the encoder on the example bands.\<close>

lemma filter_bit_6x2:
  "filter (\<lambda>n. node_bit n 1 0)
      [(4, [(0, 5), (2, 1)]), (3, [(0, 4), (1, 2)]), (2, [(0, 2), (1, 1), (0, 3)]),
       (1, [(0, 1), (1, 1), (0, 4)]), (0, [(3, 1), (2, 2), (3, 1), (2, 1), (0, 1)])]
     = [(1, [(0, 1), (1, 1), (0, 4)])]"
  by code_simp

lemma band_6x2_pixel: "band_6x2 (0 * 6 + 1 + 6 * 0) = Inr 1"
  by (simp add: band_6x2_def get_pixel_def index_def)

lemma band_buf_hidden: "band_buf band_hidden 2 0 2 = Inr [(1, [(0, 1), (3, 1)])]"
  by (simp add: band_hidden_def band_eval)

lemma decode_hidden: "decode_pixel [(1, [(0, 1), (3, 1)])] 0 1 = None"
  by code_simp

lemma filter_hidden: "filter (\<lambda>n. node_bit n 0 1) [(1, [(0, 1), (3, 1)])] = []"
  by code_simp

lemma start_columns_6x2:
  "map start_column
        [(4, [(0, 5), (2, 1)]), (3, [(0, 4), (1, 2)]), (2, [(0, 2), (1, 1), (0, 3)]),
          (1, [(0, 1), (1, 1), (0, 4)]), (0, [(3, 1), (2, 2), (3, 1), (2, 1), (0, 1)])]
      = [5, 4, 2, 1, 0]"
  by code_simp

lemma band_seed_6x2: "band_seed band_6x2 6 0 = Inr (Some (0, 0))"
  by (simp add: band_seed_def band_6x2_def get_pixel_def index_def BG_def)

lemma band_hidden_visible: "band_hidden 2 = Inr 2 \<and> 2 \<noteq> BG"
  by (simp add: band_hidden_def get_pixel_def index_def BG_def)

section \<open>What a call of \<open>add_node\<close> appends\<close>

lemma bit_column_six:
  "bit (column_six gp w y band color x) j \<longleftrightarrow> j < band \<and> gp (y * w + x + w * j) = Inr color"
  by (auto simp: column_six_def bit_horner_sum_bit_iff)

lemma new_nodes_refl: "new_nodes G seen seen []"
  by (simp add: new_nodes_def)

lemma new_nodes_trans:
  "new_nodes G a b m1 \<Longrightarrow> new_nodes G b c m2 \<Longrightarrow> new_nodes G a c (m1 @ m2)"
  unfolding new_nodes_def by auto

lemma new_nodes_child:
  assumes "new_nodes G (insert d seen) s1 mid" "d \<notin> seen" "G (d, rs)"
  shows "new_nodes G seen s1 (mid @ [(d, rs)])"
  using assms unfolding new_nodes_def by auto

lemma upt_step: "x < w \<Longrightarrow> [x..<w] = x # [x + 1..<w]"
  by (simp add: upt_conv_Cons)

lemma six_eqI:
  assumes "\<And>j. bit (six :: nat) j \<longleftrightarrow> bit (0 :: nat) j \<or> (0 \<le> j \<and> bit c j)"
  shows "six = c"
  using assms by (simp add: bit_eq_iff)

lemma add_node_result:
  "add_node gp w y band color start_x seen buf = Inr (seen', buf') \<Longrightarrow>
     color \<noteq> BG \<Longrightarrow> color \<in> seen \<Longrightarrow>
     \<exists>mid. buf' = buf @ mid @ [(color, node_runs gp w y band color start_x)]
        \<and> new_nodes (good_node gp w y band) seen seen' mid"
  "add_node_cols gp w y band color x cache run nodes seen buf = Inr (cache', run', nodes', seen', buf') \<Longrightarrow>
     color \<noteq> BG \<Longrightarrow> color \<in> seen \<Longrightarrow>
     (cache', run', nodes') = foldl rle_step (cache, run, nodes) (map (column_six gp w y band color) [x..<w])
      \<and> (\<exists>mid. buf' = buf @ mid \<and> new_nodes (good_node gp w y band) seen seen' mid)"
  "add_node_rows gp w y band color x i six seen buf = Inr (six', seen', buf') \<Longrightarrow>
     color \<noteq> BG \<Longrightarrow> color \<in> seen \<Longrightarrow> x < w \<Longrightarrow>
     (\<forall>j. bit six' j \<longleftrightarrow> bit six j \<or> (i \<le> j \<and> bit (column_six gp w y band color x) j))
      \<and> (\<exists>mid. buf' = buf @ mid \<and> new_nodes (good_node gp w y band) seen seen' mid)"
proof (induction gp w y band color start_x seen buf
    and gp w y band color x cache run nodes seen buf
    and gp w y band color x i six seen buf
    arbitrary: seen' buf' and cache' run' nodes' seen' buf' and six' seen' buf'
    rule: add_node_add_node_cols_add_node_rows.induct)
  case (1 gp w y band color start_x seen buf)
  let ?init = "if start_x \<noteq> 0 then [(0, start_x)] else []"
  from "1.prems"(1) obtain cache run nodes b1 where
    r: "add_node_cols gp w y band color start_x None 0 ?init seen buf = Inr (cache, run, nodes, seen', b1)"
    and b: "buf' = b1 @ [(color, finish_runs (cache, run, nodes))]"
    by (auto simp: add_node.simps [of gp w y band color start_x seen buf] finish_runs_def
        split: sum.splits option.splits)
  from "1.IH" [OF r "1.prems"(2,3)] obtain mid where
    st: "(cache, run, nodes) = foldl rle_step (None, 0, ?init) (map (column_six gp w y band color) [start_x..<w])"
    and m: "b1 = buf @ mid" "new_nodes (good_node gp w y band) seen seen' mid"
    by blast
  from st have "finish_runs (cache, run, nodes) = node_runs gp w y band color start_x"
    by (simp add: node_runs_def)
  with b m show ?case by simp
next
  case (2 gp w y band color x cache run nodes seen buf)
  note eq = add_node_cols.simps [of gp w y band color x cache run nodes seen buf]
  show ?case
  proof (cases "x < w")
    case False
    with "2.prems"(1) show ?thesis by (simp add: eq new_nodes_refl)
  next
    case True
    from "2.prems"(1) True obtain six s1 b1 where
      r: "add_node_rows gp w y band color x 0 0 seen buf = Inr (six, s1, b1)"
      by (auto simp: eq split: sum.splits)
    from "2.IH"(1) [OF True r "2.prems"(2,3) True] obtain mid1 where
      bits: "\<And>j. bit six j \<longleftrightarrow> bit (0::nat) j \<or> (0 \<le> j \<and> bit (column_six gp w y band color x) j)"
      and m1: "b1 = buf @ mid1" "new_nodes (good_node gp w y band) seen s1 mid1"
      by blast
    from bits have six: "six = column_six gp w y band color x" by (rule six_eqI)
    from m1(2) "2.prems"(3) have c1: "color \<in> s1" by (auto simp: new_nodes_def)
    from "2.prems"(1) True r
    have unf: "(case cache of
                None \<Rightarrow> add_node_cols gp w y band color (x + 1) (Some six) 1 nodes s1 b1
              | Some c \<Rightarrow>
                  if six = c
                  then add_node_cols gp w y band color (x + 1) cache (run + 1) nodes s1 b1
                  else add_node_cols gp w y band color (x + 1) (Some six) 1
                         (nodes @ [(c, run)]) s1 b1) = Inr (cache', run', nodes', seen', buf')"
      by (simp add: eq)
    obtain cache2 run2 nodes2 where st2: "rle_step (cache, run, nodes) six = (cache2, run2, nodes2)"
      by (cases "rle_step (cache, run, nodes) six") auto
    have call: "add_node_cols gp w y band color (x + 1) cache2 run2 nodes2 s1 b1
        = Inr (cache', run', nodes', seen', buf')
      \<and> ((cache', run', nodes') = foldl rle_step (cache2, run2, nodes2)
              (map (column_six gp w y band color) [x + 1..<w])
          \<and> (\<exists>mid. buf' = b1 @ mid \<and> new_nodes (good_node gp w y band) s1 seen' mid))"
    proof (cases cache)
      case None
      with st2 have e: "cache2 = Some six" "run2 = 1" "nodes2 = nodes" by (auto simp: rle_step_def)
      from None unf
      have c: "add_node_cols gp w y band color (x + 1) (Some six) 1 nodes s1 b1
             = Inr (cache', run', nodes', seen', buf')"
        by simp
      from "2.IH"(2) [OF True r refl refl None c "2.prems"(2) c1] c e show ?thesis by simp
    next
      case (Some c0)
      show ?thesis
      proof (cases "six = c0")
        case same: True
        with Some st2 have e: "cache2 = cache" "run2 = run + 1" "nodes2 = nodes" by (auto simp: rle_step_def)
        from same Some unf
        have c: "add_node_cols gp w y band color (x + 1) cache (run + 1) nodes s1 b1
             = Inr (cache', run', nodes', seen', buf')"
          by simp
        from "2.IH"(3) [OF True r refl refl Some same c "2.prems"(2) c1] c e show ?thesis by simp
      next
        case diff: False
        with Some st2 have e: "cache2 = Some six" "run2 = 1" "nodes2 = nodes @ [(c0, run)]"
          by (auto simp: rle_step_def)
        from diff Some unf
        have c: "add_node_cols gp w y band color (x + 1) (Some six) 1 (nodes @ [(c0, run)]) s1 b1
             = Inr (cache', run', nodes', seen', buf')"
          by simp
        from "2.IH"(4) [OF True r refl refl Some diff c "2.prems"(2) c1] c e show ?thesis by simp
      qed
    qed
    then obtain mid2 where
      st: "(cache', run', nodes') = foldl rle_step (cache2, run2, nodes2)
              (map (column_six gp w y band color) [x + 1..<w])"
      and m2: "buf' = b1 @ mid2" "new_nodes (good_node gp w y band) s1 seen' mid2"
      by blast
    have "foldl rle_step (cache, run, nodes) (map (column_six gp w y band color) [x..<w])
        = foldl rle_step (cache2, run2, nodes2) (map (column_six gp w y band color) [x + 1..<w])"
      using st2 six by (simp add: upt_step [OF True])
    with st have A: "(cache', run', nodes')
        = foldl rle_step (cache, run, nodes) (map (column_six gp w y band color) [x..<w])"
      by simp
    from m1 m2 have "buf' = buf @ (mid1 @ mid2)" by simp
    moreover from m1(2) m2(2) have "new_nodes (good_node gp w y band) seen seen' (mid1 @ mid2)"
      by (rule new_nodes_trans)
    ultimately show ?thesis using A by blast
  qed
next
  case (3 gp w y band color x i six seen buf)
  note eq = add_node_rows.simps [of gp w y band color x i six seen buf]
  let ?G = "good_node gp w y band"
  let ?c = "column_six gp w y band color x"
  show ?case
  proof (cases "i < band")
    case False
    with "3.prems"(1) have "six' = six" "seen' = seen" "buf' = buf" by (simp_all add: eq)
    moreover from False have "\<And>j. i \<le> j \<Longrightarrow> \<not> bit ?c j" by (simp add: bit_column_six)
    ultimately show ?thesis by (auto simp: new_nodes_refl)
  next
    case True
    from "3.prems"(1) True obtain d where d: "gp (y * w + x + w * i) = Inr d"
      by (auto simp: eq split: sum.splits)
    have step: "(i \<le> j \<and> bit ?c j) \<longleftrightarrow> (j = i \<and> d = color) \<or> (i + 1 \<le> j \<and> bit ?c j)" for j
    proof (cases "j = i")
      case True
      with \<open>i < band\<close> d show ?thesis by (simp add: bit_column_six)
    next
      case False
      then have "i \<le> j \<longleftrightarrow> i + 1 \<le> j" by arith
      with False show ?thesis by simp
    qed
    consider (bg) "d = BG" | (own) "d \<noteq> BG" "d = color"
      | (new) "d \<noteq> BG" "d \<noteq> color" "d \<notin> seen"
      | (old) "d \<noteq> BG" "d \<noteq> color" "\<not> d \<notin> seen"
      by blast
    then show ?thesis
    proof cases
      case bg
      with "3.prems"(1) True d
      have c: "add_node_rows gp w y band color x (i + 1) six seen buf = Inr (six', seen', buf')"
        by (simp add: eq)
      from bg "3.prems"(2) have "d \<noteq> color" by simp
      with "3.IH"(1) [OF True d bg c "3.prems"(2,3,4)] step show ?thesis by simp
    next
      case own
      with "3.prems"(1) True d
      have c: "add_node_rows gp w y band color x (i + 1) (six OR push_bit i 1) seen buf
          = Inr (six', seen', buf')"
        by (simp add: eq)
      have "\<And>j. bit (six OR push_bit i (1::nat)) j \<longleftrightarrow> bit six j \<or> j = i"
        by (auto simp: bit_or_iff bit_exp_iff)
      with "3.IH"(2) [OF True d own c "3.prems"(2,3,4)] step own show ?thesis by auto
    next
      case new
      with "3.prems"(1) True d obtain s1 b1 where
        r: "add_node gp w y band d x (insert d seen) buf = Inr (s1, b1)"
        by (auto simp: eq split: sum.splits)
      with new "3.prems"(1) True d
      have c: "add_node_rows gp w y band color x (i + 1) six s1 b1 = Inr (six', seen', buf')"
        by (simp add: eq)
      from True d "3.prems"(4) have ok: "start_ok gp w y band d x"
        unfolding start_ok_def by blast
      from "3.IH"(3) [OF True d new r new(1)] obtain mid1 where
        m1: "b1 = buf @ mid1 @ [(d, node_runs gp w y band d x)]" "new_nodes ?G (insert d seen) s1 mid1"
        by auto
      from new(1) ok have "?G (d, node_runs gp w y band d x)"
        unfolding good_node_def by auto
      with m1(2) new(3) have n1: "new_nodes ?G seen s1 (mid1 @ [(d, node_runs gp w y band d x)])"
        by (intro new_nodes_child)
      then have c1: "color \<in> s1" using "3.prems"(3) by (auto simp: new_nodes_def)
      from "3.IH"(4) [OF True d new r refl c "3.prems"(2) c1 "3.prems"(4)] obtain mid2 where
        bits: "\<And>j. bit six' j \<longleftrightarrow> bit six j \<or> (i + 1 \<le> j \<and> bit ?c j)"
        and m2: "buf' = b1 @ mid2" "new_nodes ?G s1 seen' mid2"
        by blast
      from n1 m2(2) have "new_nodes ?G seen seen' ((mid1 @ [(d, node_runs gp w y band d x)]) @ mid2)"
        by (rule new_nodes_trans)
      moreover from m1(1) m2(1) have "buf' = buf @ ((mid1 @ [(d, node_runs gp w y band d x)]) @ mid2)"
        by simp
      ultimately have "\<exists>mid. buf' = buf @ mid \<and> new_nodes ?G seen seen' mid" by blast
      with bits step new(2) show ?thesis by simp
    next
      case old
      with "3.prems"(1) True d
      have c: "add_node_rows gp w y band color x (i + 1) six seen buf = Inr (six', seen', buf')"
        by (simp add: eq)
      with "3.IH"(5) [OF True d old c "3.prems"(2,3,4)] step old(2) show ?thesis by simp
    qed
  qed
qed

section \<open>Runs of a node\<close>

lemma expand_runs_append [simp]: "expand_runs (xs @ ys) = expand_runs xs @ expand_runs ys"
  by (simp add: expand_runs_def)

lemma expand_runs_Nil [simp]: "expand_runs [] = []"
  by (simp add: expand_runs_def)

lemma expand_runs_Cons [simp]: "expand_runs (r # rs) = replicate (snd r) (fst r) @ expand_runs rs"
  by (simp add: expand_runs_def)

lemma length_expand_runs: "length (expand_runs rs) = sum_list (map snd rs)"
  by (induction rs) (simp_all add: expand_runs_def)

lemma expand_rle_step:
  "expand_runs (finish_runs (rle_step st six)) = expand_runs (finish_runs st) @ [six]"
proof -
  obtain cache run nodes where st: "st = (cache, run, nodes)" by (cases st) auto
  show ?thesis
  proof (cases cache)
    case None
    with st show ?thesis by (simp add: rle_step_def finish_runs_def)
  next
    case (Some c)
    with st show ?thesis
      by (simp add: rle_step_def finish_runs_def replicate_append_same)
  qed
qed

lemma expand_rle_steps:
  "expand_runs (finish_runs (foldl rle_step st syms)) = expand_runs (finish_runs st) @ syms"
  by (induction syms arbitrary: st) (simp_all add: expand_rle_step)

lemma expand_node_runs:
  "expand_runs (node_runs gp w y band color s)
     = replicate s 0 @ map (column_six gp w y band color) [s..<w]"
proof -
  have "expand_runs (node_runs gp w y band color s)
      = expand_runs (finish_runs (None, 0, if s \<noteq> 0 then [(0, s)] else []))
          @ map (column_six gp w y band color) [s..<w]"
    unfolding node_runs_def by (rule expand_rle_steps)
  then show ?thesis by (simp add: finish_runs_def)
qed

lemma sum_node_runs:
  "s \<le> w \<Longrightarrow> sum_list (map snd (node_runs gp w y band color s)) = w"
  using length_expand_runs [of "node_runs gp w y band color s", symmetric]
  by (simp add: expand_node_runs)

lemma wf_rle_step:
  assumes "open_run st" "wf_runs (finish_runs st)"
  shows "open_run (rle_step st six) \<and> wf_runs (finish_runs (rle_step st six))"
proof -
  from assms(1) obtain c run nodes where st: "st = (Some c, run, nodes)" and run: "run \<noteq> 0"
    by (cases st) (auto simp: open_run_def)
  from assms(2) st run have wf: "wf_runs (nodes @ [(c, run)])" by (simp add: finish_runs_def)
  show ?thesis
  proof (cases "six = c")
    case True
    with st wf show ?thesis
      by (auto simp: rle_step_def finish_runs_def open_run_def wf_runs_def distinct_adj_append_iff)
  next
    case False
    with st wf run show ?thesis
      by (auto simp: rle_step_def finish_runs_def open_run_def wf_runs_def distinct_adj_append_iff)
  qed
qed

lemma wf_rle_steps:
  "open_run st \<Longrightarrow> wf_runs (finish_runs st) \<Longrightarrow> wf_runs (finish_runs (foldl rle_step st syms))"
  by (induction syms arbitrary: st) (simp_all add: wf_rle_step)

lemma column_six_nonzero:
  assumes "i < band" "gp (y * w + x + w * i) = Inr color"
  shows "column_six gp w y band color x \<noteq> 0"
proof
  assume "column_six gp w y band color x = 0"
  moreover from assms have "bit (column_six gp w y band color x) i" by (simp add: bit_column_six)
  ultimately show False by simp
qed

lemma wf_node_runs:
  assumes "start_ok gp w y band color s"
  shows "wf_runs (node_runs gp w y band color s)"
proof (cases "s < w")
  case False
  with assms have "s = 0" "w = 0" by (auto simp: start_ok_def)
  then show ?thesis by (simp add: node_runs_def finish_runs_def wf_runs_def)
next
  case True
  let ?six = "column_six gp w y band color s"
  let ?init = "if s \<noteq> 0 then [(0, s)] else []"
  have first: "open_run (rle_step (None, 0, ?init) ?six)
      \<and> wf_runs (finish_runs (rle_step (None, 0, ?init) ?six))"
  proof (cases "s = 0")
    case True
    then show ?thesis by (simp add: rle_step_def open_run_def finish_runs_def wf_runs_def)
  next
    case False
    with assms obtain i where "i < band" "gp (y * w + s + w * i) = Inr color"
      by (auto simp: start_ok_def)
    then have "?six \<noteq> 0" by (rule column_six_nonzero)
    with False show ?thesis by (simp add: rle_step_def open_run_def finish_runs_def wf_runs_def)
  qed
  have "node_runs gp w y band color s
      = finish_runs (foldl rle_step (rle_step (None, 0, ?init) ?six)
          (map (column_six gp w y band color) [s + 1..<w]))"
    by (simp add: node_runs_def upt_step [OF True])
  with first show ?thesis by (simp add: wf_rle_steps)
qed

lemma nth_expand_node_runs:
  assumes "x < w" "s \<le> w"
  shows "expand_runs (node_runs gp w y band color s) ! x
     = (if x < s then 0 else column_six gp w y band color x)"
  using assms by (simp add: expand_node_runs nth_append)

lemma column_six_less: "column_six gp w y band color x < 2 ^ band"
proof -
  have "take_bit band (column_six gp w y band color x) = column_six gp w y band color x"
    by (intro bit_eqI) (auto simp: bit_take_bit_iff bit_column_six)
  then show ?thesis
    by (metis take_bit_nat_less_exp)
qed

section \<open>The nodes of a band\<close>

lemma band_buf_seed:
  "band_buf gp w y band =
     (case band_seed gp w y of
        Inl e \<Rightarrow> Inl e
      | Inr None \<Rightarrow> Inr []
      | Inr (Some (c, s)) \<Rightarrow>
          (case add_node gp w y band c s {c} [] of
             Inl e \<Rightarrow> Inl e
           | Inr (seen, buf) \<Rightarrow> Inr buf))"
  by (simp add: band_buf_def band_seed_def split: sum.splits)

lemma scan_first_Some:
  "scan_first gp w y x0 = Inr (Some (d, x)) \<Longrightarrow>
     x0 \<le> x \<and> x < w \<and> gp (y * w + x) = Inr d \<and> d \<noteq> BG
     \<and> (\<forall>x'. x0 \<le> x' \<and> x' < x \<longrightarrow> gp (y * w + x') = Inr BG)"
proof (induction gp w y x0 rule: scan_first.induct)
  case (1 gp w y x0)
  note eq = scan_first.simps [of gp w y x0]
  from "1.prems" have lt: "x0 < w" by (auto simp: eq split: if_splits)
  with "1.prems" obtain d0 where d0: "gp (y * w + x0) = Inr d0"
    by (auto simp: eq split: sum.splits)
  show ?case
  proof (cases "d0 \<noteq> BG")
    case True
    with "1.prems" lt d0 show ?thesis by (auto simp: eq)
  next
    case False
    with "1.prems" lt d0 have "scan_first gp w y (x0 + 1) = Inr (Some (d, x))" by (simp add: eq)
    from "1.IH" [OF lt d0 False this] have
      IH: "x0 + 1 \<le> x" "x < w" "gp (y * w + x) = Inr d" "d \<noteq> BG"
        "\<And>x'. x0 + 1 \<le> x' \<Longrightarrow> x' < x \<Longrightarrow> gp (y * w + x') = Inr BG"
      by auto
    have "gp (y * w + x') = Inr BG" if "x0 \<le> x'" "x' < x" for x'
    proof (cases "x' = x0")
      case True
      with d0 False show ?thesis by simp
    next
      case False
      with that IH(5) [of x'] show ?thesis by simp
    qed
    with IH show ?thesis by auto
  qed
qed

lemma band_seed_Some:
  assumes "band_seed gp w y = Inr (Some (c, s))"
  shows "c \<noteq> BG" "gp (y * w + s) = Inr c" "s = 0 \<or> s < w"
proof -
  from assms obtain first where f: "gp (y * w) = Inr first"
    by (auto simp: band_seed_def split: sum.splits)
  show "c \<noteq> BG" "gp (y * w + s) = Inr c" "s = 0 \<or> s < w"
    using assms f scan_first_Some [of gp w y 0 c s]
    by (auto simp: band_seed_def split: if_splits)
qed

lemma band_buf_nodes:
  assumes "band_buf gp w y band = Inr buf"
  shows "buf = [] \<or>
     (\<exists>c s seen' mid. band_seed gp w y = Inr (Some (c, s)) \<and>
        buf = mid @ [(c, node_runs gp w y band c s)] \<and>
        new_nodes (good_node gp w y band) {c} seen' mid)"
proof (cases "band_seed gp w y")
  case (Inl e)
  with assms show ?thesis by (simp add: band_buf_seed)
next
  case (Inr r)
  show ?thesis
  proof (cases r)
    case None
    with Inr assms show ?thesis by (simp add: band_buf_seed)
  next
    case (Some cs)
    obtain c s where cs: "cs = (c, s)" by (cases cs) auto
    with Inr Some have seed: "band_seed gp w y = Inr (Some (c, s))" by simp
    with assms obtain seen' where a: "add_node gp w y band c s {c} [] = Inr (seen', buf)"
      by (auto simp: band_buf_seed split: sum.splits)
    from band_seed_Some(1) [OF seed] have "c \<noteq> BG" .
    from add_node_result(1) [OF a this] seed show ?thesis by auto
  qed
qed

lemma band_buf_good:
  assumes "band_buf gp w y band = Inr buf" "0 < band"
  shows "distinct (map fst buf)" "\<forall>n\<in>set buf. good_node gp w y band n"
proof -
  from band_buf_nodes [OF assms(1)] show "distinct (map fst buf)"
    by (auto simp: new_nodes_def)
  from band_buf_nodes [OF assms(1)] show "\<forall>n\<in>set buf. good_node gp w y band n"
  proof
    assume "buf = []"
    then show ?thesis by simp
  next
    assume "\<exists>c s seen' mid. band_seed gp w y = Inr (Some (c, s)) \<and>
        buf = mid @ [(c, node_runs gp w y band c s)] \<and>
        new_nodes (good_node gp w y band) {c} seen' mid"
    then obtain c s seen' mid where seed: "band_seed gp w y = Inr (Some (c, s))"
      and buf: "buf = mid @ [(c, node_runs gp w y band c s)]"
      and new: "new_nodes (good_node gp w y band) {c} seen' mid"
      by blast
    from band_seed_Some [OF seed] assms(2) have "c \<noteq> BG" "start_ok gp w y band c s"
      by (auto simp: start_ok_def)
    then have "good_node gp w y band (c, node_runs gp w y band c s)"
      by (auto simp: good_node_def)
    with buf new show ?thesis by (auto simp: new_nodes_def)
  qed
qed

lemma good_node_sum:
  "good_node gp w y band n \<Longrightarrow> sum_list (map snd (snd n)) = w"
  by (auto simp: good_node_def start_ok_def sum_node_runs)

lemma good_node_wf:
  "good_node gp w y band n \<Longrightarrow> wf_runs (snd n)"
  by (auto simp: good_node_def wf_node_runs)

lemma good_node_bit:
  assumes "good_node gp w y band n" "node_bit n x i"
  shows "x < w \<and> i < band \<and> gp (y * w + x + w * i) = Inr (fst n) \<and> fst n \<noteq> BG"
proof -
  from assms(1) obtain s where s: "start_ok gp w y band (fst n) s"
    and n: "snd n = node_runs gp w y band (fst n) s" and bg: "fst n \<noteq> BG"
    by (auto simp: good_node_def)
  from s have sw: "s \<le> w" by (auto simp: start_ok_def)
  then have len: "length (expand_runs (snd n)) = w" by (simp add: n expand_node_runs)
  with assms(2) have x: "x < w" by (simp add: node_bit_def)
  from assms(2) have "bit (if x < s then 0 else column_six gp w y band (fst n) x) i"
    by (simp add: node_bit_def n nth_expand_node_runs [OF x sw])
  then have "bit (column_six gp w y band (fst n) x) i" by (simp split: if_splits)
  with x bg show ?thesis by (simp add: bit_column_six)
qed

text \<open>
  Claim C5. In the buffer of every band, the repeat counts of each node's Runs add up
  to the image width, the leading zero Run included. (The band loop calls the encoder
  with a positive band height only: \<open>band = min(6, height - y)\<close> for \<open>y < height\<close>.)
\<close>

theorem run_counts_sum:
  "band_buf gp w y band = Inr buf \<Longrightarrow> 0 < band \<Longrightarrow> \<forall>n\<in>set buf. sum_list (map snd (snd n)) = w"
  using band_buf_good(2) good_node_sum by blast

theorem run_counts_sum_witness:
  "band_buf band_6x2 6 0 2 =
     Inr [(4, [(0, 5), (2, 1)]), (3, [(0, 4), (1, 2)]), (2, [(0, 2), (1, 1), (0, 3)]),
          (1, [(0, 1), (1, 1), (0, 4)]), (0, [(3, 1), (2, 2), (3, 1), (2, 1), (0, 1)])]
   \<and> sum_list (map snd [(0 :: nat, 5 :: nat), (2, 1)]) = 6
   \<and> sum_list (map snd [(0 :: nat, 4 :: nat), (1, 2)]) = 6
   \<and> sum_list (map snd [(0 :: nat, 2 :: nat), (1, 1), (0, 3)]) = 6
   \<and> sum_list (map snd [(0 :: nat, 1 :: nat), (1, 1), (0, 4)]) = 6
   \<and> sum_list (map snd [(3 :: nat, 1 :: nat), (2, 2), (3, 1), (2, 1), (0, 1)]) = 6"
  using run_counts_sum [OF band_buf_6x2] band_buf_6x2 by simp

text \<open>
  Claim C6. In the buffer of every band, no Run of a node has repeat count zero and no
  two adjacent Runs of a node carry the same bitmask.
\<close>

theorem runs_maximal:
  "band_buf gp w y band = Inr buf \<Longrightarrow> 0 < band \<Longrightarrow>
     \<forall>n\<in>set buf. (\<forall>r\<in>set (snd n). snd r \<noteq> 0) \<and> distinct_adj (map fst (snd n))"
  using band_buf_good(2) good_node_wf unfolding wf_runs_def by blast

theorem runs_maximal_witness:
  "band_buf band_6x2 6 0 2 =
     Inr [(4, [(0, 5), (2, 1)]), (3, [(0, 4), (1, 2)]), (2, [(0, 2), (1, 1), (0, 3)]),
          (1, [(0, 1), (1, 1), (0, 4)]), (0, [(3, 1), (2, 2), (3, 1), (2, 1), (0, 1)])]
   \<and> distinct_adj (map fst [(3 :: nat, 1 :: nat), (2, 2), (3, 1), (2, 1), (0, 1)])
   \<and> 0 \<notin> snd ` set [(3 :: nat, 1 :: nat), (2, 2), (3, 1), (2, 1), (0, 1)]
   \<and> distinct_adj (map fst [(0 :: nat, 2 :: nat), (1, 1), (0, 3)])
   \<and> 0 \<notin> snd ` set [(0 :: nat, 2 :: nat), (1, 1), (0, 3)]"
  using runs_maximal [OF band_buf_6x2] band_buf_6x2 by simp

text \<open>
  A bit set in a node is the node's own colour at that pixel, which is visible; no other
  node of the band has that bit.
\<close>

lemma band_buf_mutual_exclusion:
  assumes "band_buf gp w y band = Inr buf" "0 < band"
    and "n \<in> set buf" "node_bit n x i"
  shows "gp (y * w + x + w * i) = Inr (fst n) \<and> fst n \<noteq> BG
     \<and> (\<forall>m\<in>set buf. node_bit m x i \<longrightarrow> m = n)"
proof -
  note good = band_buf_good [OF assms(1,2)]
  from good(2) assms(3,4) have n: "gp (y * w + x + w * i) = Inr (fst n)" "fst n \<noteq> BG"
    using good_node_bit by blast+
  have "m = n" if "m \<in> set buf" "node_bit m x i" for m
  proof -
    from good(2) that have "gp (y * w + x + w * i) = Inr (fst m)"
      using good_node_bit by blast
    with n have "fst m = fst n" by simp
    with good(1) that(1) assms(3) show ?thesis
      by (meson distinct_map inj_on_eq_iff)
  qed
  with n show ?thesis by blast
qed

text \<open>
  The half of the bitmask property that holds in every band: for every column \<open>x\<close> and
  sub-row \<open>i\<close>, at most one node of the buffer has bit \<open>i\<close> set at column \<open>x\<close>; a set
  bit marks a pixel of the node's own colour, never a background pixel.
\<close>

lemma bitmasks_exclusive:
  assumes "band_buf gp w y band = Inr buf" "0 < band"
  shows "(\<forall>m\<in>set buf. \<forall>n\<in>set buf. node_bit m x i \<and> node_bit n x i \<longrightarrow> m = n)
    \<and> (\<forall>n\<in>set buf. node_bit n x i \<longrightarrow>
          gp (y * w + x + w * i) = Inr (fst n) \<and> gp (y * w + x + w * i) \<noteq> Inr BG)
    \<and> distinct buf"
proof -
  have "distinct buf" using band_buf_good(1) [OF assms] by (simp add: distinct_map)
  moreover have "gp (y * w + x + w * i) = Inr (fst n) \<and> gp (y * w + x + w * i) \<noteq> Inr BG"
    if "n \<in> set buf" "node_bit n x i" for n
    using band_buf_mutual_exclusion [OF assms that] by auto
  moreover have "m = n" if "m \<in> set buf" "n \<in> set buf" "node_bit m x i" "node_bit n x i" for m n
    using band_buf_mutual_exclusion [OF assms that(2,4)] that(1,3) by blast
  ultimately show ?thesis by blast
qed

lemma bitmasks_exclusive_6x2:
  "band_buf band_6x2 6 0 2 =
     Inr [(4, [(0, 5), (2, 1)]), (3, [(0, 4), (1, 2)]), (2, [(0, 2), (1, 1), (0, 3)]),
          (1, [(0, 1), (1, 1), (0, 4)]), (0, [(3, 1), (2, 2), (3, 1), (2, 1), (0, 1)])]
   \<and> filter (\<lambda>n. node_bit n 1 0)
      [(4, [(0, 5), (2, 1)]), (3, [(0, 4), (1, 2)]), (2, [(0, 2), (1, 1), (0, 3)]),
       (1, [(0, 1), (1, 1), (0, 4)]), (0, [(3, 1), (2, 2), (3, 1), (2, 1), (0, 1)])]
     = [(1, [(0, 1), (1, 1), (0, 4)])]
   \<and> band_6x2 (0 * 6 + 1 + 6 * 0) = Inr 1"
proof -
  have "(0 :: nat) < 2" by simp
  from bitmasks_exclusive [OF band_buf_6x2 this, of 1 0] band_buf_6x2 filter_bit_6x2 band_6x2_pixel
  show ?thesis by blast
qed

section \<open>What a scan discovers, and in which order\<close>

lemma start_column_node_runs:
  assumes "start_ok gp w y band color s"
  shows "start_column (color, node_runs gp w y band color s) = s"
proof (cases "s < w")
  case False
  with assms have "s = 0" "w = 0" by (auto simp: start_ok_def)
  then show ?thesis by (simp add: start_column_def expand_node_runs)
next
  case True
  with assms obtain i where "i < band" "gp (y * w + s + w * i) = Inr color"
    by (auto simp: start_ok_def)
  then have nz: "column_six gp w y band color s \<noteq> 0" by (rule column_six_nonzero)
  let ?rest = "map (column_six gp w y band color) [s..<w]"
  have "takeWhile (\<lambda>v. v = 0) (replicate s 0 @ ?rest) = replicate s 0 @ takeWhile (\<lambda>v. v = 0) ?rest"
    by (rule takeWhile_append2) simp
  moreover from nz have "takeWhile (\<lambda>v. v = 0) ?rest = []"
    by (simp add: upt_step [OF True])
  ultimately show ?thesis
    by (simp add: start_column_def expand_node_runs)
qed

lemma chain_Nil: "chain gp w y band x0 x []"
  by (simp add: chain_def)

lemma chain_weaken: "chain gp w y band x0 (x + 1) mid \<Longrightarrow> chain gp w y band x0 x mid"
  by (auto simp: chain_def)

lemma chain_snoc:
  assumes "chain gp w y band x0 x mid" "start_column n = x" "no_earlier gp w y band x0 n"
  shows "chain gp w y band x0 x (mid @ [n])"
  using assms by (auto simp: chain_def sorted_wrt_append)

lemma covered_mono: "covered gp w y band seen lo hi \<Longrightarrow> seen \<subseteq> seen' \<Longrightarrow> covered gp w y band seen' lo hi"
  unfolding covered_def by blast

lemma covered_col_mono:
  "covered_col gp w y band seen x i \<Longrightarrow> seen \<subseteq> seen' \<Longrightarrow> covered_col gp w y band seen' x i"
  unfolding covered_col_def by blast

lemma covered_step:
  assumes "covered gp w y band seen lo x" "covered_col gp w y band seen x 0"
  shows "covered gp w y band seen lo (x + 1)"
  unfolding covered_def
proof (intro allI impI)
  fix x' j d
  assume a: "lo \<le> x' \<and> x' < x + 1 \<and> x' < w \<and> j < band \<and> gp (y * w + x' + w * j) = Inr d \<and> d \<noteq> BG"
  show "d \<in> seen"
  proof (cases "x' = x")
    case True
    with a assms(2) show ?thesis unfolding covered_col_def by blast
  next
    case False
    with a have "x' < x" by simp
    with a assms(1) show ?thesis unfolding covered_def by blast
  qed
qed

lemma covered_split:
  assumes "covered_col gp w y band seen x 0" "covered gp w y band seen (x + 1) w"
  shows "covered gp w y band seen x w"
  unfolding covered_def
proof (intro allI impI)
  fix x' j d
  assume a: "x \<le> x' \<and> x' < w \<and> x' < w \<and> j < band \<and> gp (y * w + x' + w * j) = Inr d \<and> d \<noteq> BG"
  show "d \<in> seen"
  proof (cases "x' = x")
    case True
    with a assms(1) show ?thesis unfolding covered_col_def by blast
  next
    case False
    with a have "x + 1 \<le> x'" by simp
    with a assms(2) show ?thesis unfolding covered_def by blast
  qed
qed

lemma covered_colD: "covered gp w y band seen x w \<Longrightarrow> x < w \<Longrightarrow> covered_col gp w y band seen x i"
  unfolding covered_def covered_col_def by blast

lemma covered_tail:
  assumes "covered gp w y band seen x w"
  shows "covered gp w y band seen (x + 1) w"
  unfolding covered_def
proof (intro allI impI)
  fix x' j d
  assume a: "x + 1 \<le> x' \<and> x' < w \<and> x' < w \<and> j < band \<and> gp (y * w + x' + w * j) = Inr d \<and> d \<noteq> BG"
  then have "x \<le> x'" by simp
  with a assms show "d \<in> seen" unfolding covered_def by blast
qed

lemma covered_col_Suc:
  assumes "covered_col gp w y band seen x (i + 1)" "gp (y * w + x + w * i) = Inr d" "d = BG \<or> d \<in> seen"
  shows "covered_col gp w y band seen x i"
  unfolding covered_col_def
proof (intro allI impI)
  fix j d'
  assume a: "i \<le> j \<and> j < band \<and> gp (y * w + x + w * j) = Inr d' \<and> d' \<noteq> BG"
  show "d' \<in> seen"
  proof (cases "j = i")
    case True
    with a assms(2,3) show ?thesis by auto
  next
    case False
    with a have "i + 1 \<le> j" by simp
    with a assms(1) show ?thesis unfolding covered_col_def by blast
  qed
qed

lemma covered_col_tail:
  assumes "covered_col gp w y band seen x i"
  shows "covered_col gp w y band seen x (i + 1)"
  unfolding covered_col_def
proof (intro allI impI)
  fix j d
  assume a: "i + 1 \<le> j \<and> j < band \<and> gp (y * w + x + w * j) = Inr d \<and> d \<noteq> BG"
  then have "i \<le> j" by simp
  with a assms show "d \<in> seen" unfolding covered_col_def by blast
qed

lemma new_nodes_mono: "new_nodes G seen seen' mid \<Longrightarrow> seen \<subseteq> seen'"
  by (simp add: new_nodes_def)

lemma add_node_scan:
  "add_node gp w y band color start_x seen buf = Inr (seen', buf') \<Longrightarrow>
     color \<noteq> BG \<Longrightarrow> color \<in> seen \<Longrightarrow> covered gp w y band seen x0 start_x \<Longrightarrow>
     covered gp w y band seen' start_x w
      \<and> (\<forall>mid r. buf' = buf @ mid @ [r] \<longrightarrow> chain gp w y band x0 start_x mid)"
  "add_node_cols gp w y band color x cache run nodes seen buf = Inr (cache', run', nodes', seen', buf') \<Longrightarrow>
     color \<noteq> BG \<Longrightarrow> color \<in> seen \<Longrightarrow> covered gp w y band seen x0 x \<Longrightarrow>
     covered gp w y band seen' x w
      \<and> (covered gp w y band seen x w \<longrightarrow> seen' = seen \<and> buf' = buf)
      \<and> (\<forall>mid. buf' = buf @ mid \<longrightarrow> chain gp w y band x0 x mid)"
  "add_node_rows gp w y band color x i six seen buf = Inr (six', seen', buf') \<Longrightarrow>
     color \<noteq> BG \<Longrightarrow> color \<in> seen \<Longrightarrow> x < w \<Longrightarrow> covered gp w y band seen x0 x \<Longrightarrow>
     covered_col gp w y band seen' x i
      \<and> (covered_col gp w y band seen x i \<longrightarrow> seen' = seen \<and> buf' = buf)
      \<and> ((seen' = seen \<and> buf' = buf) \<or> covered gp w y band seen' x w)
      \<and> (\<forall>mid. buf' = buf @ mid \<longrightarrow> chain gp w y band x0 x mid)"
proof (induction gp w y band color start_x seen buf
    and gp w y band color x cache run nodes seen buf
    and gp w y band color x i six seen buf
    arbitrary: seen' buf' and cache' run' nodes' seen' buf' and six' seen' buf'
    rule: add_node_add_node_cols_add_node_rows.induct)
  case (1 gp w y band color start_x seen buf)
  let ?init = "if start_x \<noteq> 0 then [(0, start_x)] else []"
  from "1.prems"(1) obtain cache run nodes b1 n where
    r: "add_node_cols gp w y band color start_x None 0 ?init seen buf = Inr (cache, run, nodes, seen', b1)"
    and b: "buf' = b1 @ [n]"
    by (auto simp: add_node.simps [of gp w y band color start_x seen buf] split: sum.splits)
  from "1.IH" [OF r "1.prems"(2,3,4)] have
    cov: "covered gp w y band seen' start_x w"
    and ch: "\<And>mid. b1 = buf @ mid \<Longrightarrow> chain gp w y band x0 start_x mid"
    by blast+
  have "chain gp w y band x0 start_x mid" if "buf' = buf @ mid @ [r']" for mid r'
  proof -
    from that b have "b1 @ [n] = (buf @ mid) @ [r']" by simp
    then have "b1 = buf @ mid" by (simp only: append1_eq_conv)
    then show ?thesis by (rule ch)
  qed
  with cov show ?case by blast
next
  case (2 gp w y band color x cache run nodes seen buf)
  note eq = add_node_cols.simps [of gp w y band color x cache run nodes seen buf]
  show ?case
  proof (cases "x < w")
    case False
    with "2.prems"(1) have "seen' = seen" "buf' = buf" by (simp_all add: eq)
    moreover from False have "covered gp w y band seen x w" by (auto simp: covered_def)
    ultimately show ?thesis by (simp add: chain_Nil)
  next
    case True
    from "2.prems"(1) True obtain six s1 b1 where
      r: "add_node_rows gp w y band color x 0 0 seen buf = Inr (six, s1, b1)"
      by (auto simp: eq split: sum.splits)
    from "2.IH"(1) [OF True r "2.prems"(2,3) True "2.prems"(4)] have
      R1: "covered_col gp w y band s1 x 0"
      and R2: "covered_col gp w y band seen x 0 \<Longrightarrow> s1 = seen \<and> b1 = buf"
      and R3: "(s1 = seen \<and> b1 = buf) \<or> covered gp w y band s1 x w"
      and R4: "\<And>mid. b1 = buf @ mid \<Longrightarrow> chain gp w y band x0 x mid"
      by blast+
    from add_node_result(3) [OF r "2.prems"(2,3) True] have m1: "seen \<subseteq> s1"
      by (auto dest: new_nodes_mono)
    with "2.prems"(3) have c1: "color \<in> s1" by blast
    from "2.prems"(4) m1 have "covered gp w y band s1 x0 x" by (rule covered_mono)
    then have pre: "covered gp w y band s1 x0 (x + 1)" using R1 by (rule covered_step)
    from "2.prems"(1) True r
    have unf: "(case cache of
                None \<Rightarrow> add_node_cols gp w y band color (x + 1) (Some six) 1 nodes s1 b1
              | Some c \<Rightarrow>
                  if six = c
                  then add_node_cols gp w y band color (x + 1) cache (run + 1) nodes s1 b1
                  else add_node_cols gp w y band color (x + 1) (Some six) 1
                         (nodes @ [(c, run)]) s1 b1) = Inr (cache', run', nodes', seen', buf')"
      by (simp add: eq)
    have "s1 \<subseteq> seen' \<and> (covered gp w y band seen' (x + 1) w
        \<and> (covered gp w y band s1 (x + 1) w \<longrightarrow> seen' = s1 \<and> buf' = b1)
        \<and> (\<forall>mid. buf' = b1 @ mid \<longrightarrow> chain gp w y band x0 (x + 1) mid))"
    proof (cases cache)
      case None
      from None unf
      have c: "add_node_cols gp w y band color (x + 1) (Some six) 1 nodes s1 b1
             = Inr (cache', run', nodes', seen', buf')"
        by simp
      from add_node_result(2) [OF c "2.prems"(2) c1] have "s1 \<subseteq> seen'"
        by (auto dest: new_nodes_mono)
      with "2.IH"(2) [OF True r refl refl None c "2.prems"(2) c1 pre] show ?thesis by simp
    next
      case (Some c0)
      show ?thesis
      proof (cases "six = c0")
        case same: True
        from same Some unf
        have c: "add_node_cols gp w y band color (x + 1) cache (run + 1) nodes s1 b1
             = Inr (cache', run', nodes', seen', buf')"
          by simp
        from add_node_result(2) [OF c "2.prems"(2) c1] have "s1 \<subseteq> seen'"
          by (auto dest: new_nodes_mono)
        with "2.IH"(3) [OF True r refl refl Some same c "2.prems"(2) c1 pre] show ?thesis by simp
      next
        case diff: False
        from diff Some unf
        have c: "add_node_cols gp w y band color (x + 1) (Some six) 1 (nodes @ [(c0, run)]) s1 b1
             = Inr (cache', run', nodes', seen', buf')"
          by simp
        from add_node_result(2) [OF c "2.prems"(2) c1] have "s1 \<subseteq> seen'"
          by (auto dest: new_nodes_mono)
        with "2.IH"(4) [OF True r refl refl Some diff c "2.prems"(2) c1 pre] show ?thesis by simp
      qed
    qed
    then have m2: "s1 \<subseteq> seen'"
      and C1: "covered gp w y band seen' (x + 1) w"
      and C2: "covered gp w y band s1 (x + 1) w \<Longrightarrow> seen' = s1 \<and> buf' = b1"
      and C3: "\<And>mid. buf' = b1 @ mid \<Longrightarrow> chain gp w y band x0 (x + 1) mid"
      by blast+
    from R1 m2 have "covered_col gp w y band seen' x 0" by (rule covered_col_mono)
    then have A: "covered gp w y band seen' x w" using C1 by (rule covered_split)
    have B: "seen' = seen \<and> buf' = buf" if cov: "covered gp w y band seen x w"
    proof -
      from cov True have "covered_col gp w y band seen x 0" by (rule covered_colD)
      then have e: "s1 = seen \<and> b1 = buf" by (rule R2)
      from cov have "covered gp w y band seen (x + 1) w" by (rule covered_tail)
      with e C2 show ?thesis by simp
    qed
    have C: "chain gp w y band x0 x mid" if mid: "buf' = buf @ mid" for mid
      using R3
    proof
      assume "s1 = seen \<and> b1 = buf"
      with mid C3 have "chain gp w y band x0 (x + 1) mid" by simp
      then show ?thesis by (rule chain_weaken)
    next
      assume "covered gp w y band s1 x w"
      then have "covered gp w y band s1 (x + 1) w" by (rule covered_tail)
      then have "seen' = s1 \<and> buf' = b1" by (rule C2)
      with mid have "b1 = buf @ mid" by simp
      then show ?thesis by (rule R4)
    qed
    from A B C show ?thesis by blast
  qed
next
  case (3 gp w y band color x i six seen buf)
  note eq = add_node_rows.simps [of gp w y band color x i six seen buf]
  show ?case
  proof (cases "i < band")
    case False
    with "3.prems"(1) have "seen' = seen" "buf' = buf" by (simp_all add: eq)
    moreover from False have "covered_col gp w y band seen x i" by (auto simp: covered_col_def)
    ultimately show ?thesis by (simp add: chain_Nil)
  next
    case True
    from "3.prems"(1) True obtain d where d: "gp (y * w + x + w * i) = Inr d"
      by (auto simp: eq split: sum.splits)
    have same_state: ?thesis
      if c: "add_node_rows gp w y band color x (i + 1) six2 seen buf = Inr (six', seen', buf')"
        and IH: "covered_col gp w y band seen' x (i + 1)
          \<and> (covered_col gp w y band seen x (i + 1) \<longrightarrow> seen' = seen \<and> buf' = buf)
          \<and> ((seen' = seen \<and> buf' = buf) \<or> covered gp w y band seen' x w)
          \<and> (\<forall>mid. buf' = buf @ mid \<longrightarrow> chain gp w y band x0 x mid)"
        and dd: "d = BG \<or> d \<in> seen"
      for six2
    proof -
      from add_node_result(3) [OF c "3.prems"(2,3,4)] have m: "seen \<subseteq> seen'"
        by (auto dest: new_nodes_mono)
      from IH have t: "covered_col gp w y band seen' x (i + 1)" by blast
      from dd m have "d = BG \<or> d \<in> seen'" by blast
      with t d have A: "covered_col gp w y band seen' x i" by (rule covered_col_Suc)
      have B: "seen' = seen \<and> buf' = buf" if "covered_col gp w y band seen x i"
      proof -
        from that have "covered_col gp w y band seen x (i + 1)" by (rule covered_col_tail)
        with IH show ?thesis by blast
      qed
      from A B IH show ?thesis by blast
    qed
    consider (bg) "d = BG" | (own) "d \<noteq> BG" "d = color"
      | (new) "d \<noteq> BG" "d \<noteq> color" "d \<notin> seen"
      | (old) "d \<noteq> BG" "d \<noteq> color" "\<not> d \<notin> seen"
      by blast
    then show ?thesis
    proof cases
      case bg
      with "3.prems"(1) True d
      have c: "add_node_rows gp w y band color x (i + 1) six seen buf = Inr (six', seen', buf')"
        by (simp add: eq)
      from bg have "d = BG \<or> d \<in> seen" by simp
      with c "3.IH"(1) [OF True d bg c "3.prems"(2,3,4,5)] show ?thesis
        by (rule same_state)
    next
      case own
      with "3.prems"(1) True d
      have c: "add_node_rows gp w y band color x (i + 1) (six OR push_bit i 1) seen buf
          = Inr (six', seen', buf')"
        by (simp add: eq)
      from own "3.prems"(3) have "d = BG \<or> d \<in> seen" by simp
      with c "3.IH"(2) [OF True d own c "3.prems"(2,3,4,5)] show ?thesis
        by (rule same_state)
    next
      case old
      with "3.prems"(1) True d
      have c: "add_node_rows gp w y band color x (i + 1) six seen buf = Inr (six', seen', buf')"
        by (simp add: eq)
      from old have "d = BG \<or> d \<in> seen" by simp
      with c "3.IH"(5) [OF True d old c "3.prems"(2,3,4,5)] show ?thesis
        by (rule same_state)
    next
      case new
      with "3.prems"(1) True d obtain s1 b1 where
        r: "add_node gp w y band d x (insert d seen) buf = Inr (s1, b1)"
        by (auto simp: eq split: sum.splits)
      with new "3.prems"(1) True d
      have c: "add_node_rows gp w y band color x (i + 1) six s1 b1 = Inr (six', seen', buf')"
        by (simp add: eq)
      have pre1: "covered gp w y band (insert d seen) x0 x"
        using "3.prems"(5) by (rule covered_mono) blast
      from "3.IH"(3) [OF True d new r new(1) _ pre1] have
        A1: "covered gp w y band s1 x w"
        and A2: "\<And>mid r. b1 = buf @ mid @ [r] \<Longrightarrow> chain gp w y band x0 x mid"
        by blast+
      from add_node_result(1) [OF r new(1)] obtain mid1 where
        b1: "b1 = buf @ mid1 @ [(d, node_runs gp w y band d x)]"
        and m1: "insert d seen \<subseteq> s1"
        by (auto dest: new_nodes_mono)
      from m1 "3.prems"(3) have c1: "color \<in> s1" by blast
      from m1 have "seen \<subseteq> s1" by blast
      with "3.prems"(5) have pre2: "covered gp w y band s1 x0 x" by (rule covered_mono)
      from A1 "3.prems"(4) have "covered_col gp w y band s1 x (i + 1)" by (rule covered_colD)
      with "3.IH"(4) [OF True d new r refl c "3.prems"(2) c1 "3.prems"(4) pre2]
      have e: "seen' = s1" "buf' = b1" by blast+
      from A1 "3.prems"(4) e have A: "covered_col gp w y band seen' x i"
        by (simp add: covered_colD)
      have B: "\<not> covered_col gp w y band seen x i"
        using True d new(1,3) unfolding covered_col_def by blast
      from True d "3.prems"(4) have ok: "start_ok gp w y band d x"
        unfolding start_ok_def by blast
      then have sc: "start_column (d, node_runs gp w y band d x) = x"
        by (rule start_column_node_runs)
      have ne: "no_earlier gp w y band x0 (d, node_runs gp w y band d x)"
        unfolding no_earlier_def sc
      proof (intro allI impI)
        fix x' j
        assume a: "x0 \<le> x' \<and> x' < x \<and> j < band"
        show "gp (y * w + x' + w * j) \<noteq> Inr (fst (d, node_runs gp w y band d x))"
        proof
          assume "gp (y * w + x' + w * j) = Inr (fst (d, node_runs gp w y band d x))"
          then have "gp (y * w + x' + w * j) = Inr d" by simp
          with a "3.prems"(4,5) new(1) have "d \<in> seen" unfolding covered_def by (meson less_trans)
          with new(3) show False by simp
        qed
      qed
      have D: "chain gp w y band x0 x mid" if mid: "buf' = buf @ mid" for mid
      proof -
        from mid e b1 have "mid = mid1 @ [(d, node_runs gp w y band d x)]" by simp
        moreover from b1 have "chain gp w y band x0 x mid1" by (rule A2)
        ultimately show ?thesis using sc ne by (simp add: chain_snoc)
      qed
      from A B A1 e D show ?thesis by blast
    qed
  qed
qed

lemma band_buf_scan:
  assumes "band_buf gp w y band = Inr buf" "0 < band" "buf \<noteq> []"
  shows "\<exists>c s seen' mid. band_seed gp w y = Inr (Some (c, s))
     \<and> buf = mid @ [(c, node_runs gp w y band c s)]
     \<and> start_ok gp w y band c s
     \<and> new_nodes (good_node gp w y band) {c} seen' mid
     \<and> covered gp w y band seen' s w
     \<and> chain gp w y band s s mid"
proof -
  from band_buf_nodes [OF assms(1)] assms(3) obtain c s seen' mid where
    seed: "band_seed gp w y = Inr (Some (c, s))"
    and buf: "buf = mid @ [(c, node_runs gp w y band c s)]"
    and new: "new_nodes (good_node gp w y band) {c} seen' mid"
    by blast
  from band_seed_Some [OF seed] assms(2) have c: "c \<noteq> BG" and ok: "start_ok gp w y band c s"
    by (auto simp: start_ok_def)
  from seed assms(1) buf obtain s' where a: "add_node gp w y band c s {c} [] = Inr (s', buf)"
    by (auto simp: band_buf_seed split: sum.splits)
  from add_node_result(1) [OF a c] buf have "new_nodes (good_node gp w y band) {c} s' mid"
    by auto
  with new have "s' = seen'" by (auto simp: new_nodes_def)
  with a have a': "add_node gp w y band c s {c} [] = Inr (seen', buf)" by simp
  have "covered gp w y band {c} s s" by (simp add: covered_def)
  from add_node_scan(1) [OF a' c _ this] buf
  have "covered gp w y band seen' s w" "chain gp w y band s s mid" by auto
  with seed buf ok new show ?thesis by blast
qed

lemma good_node_start:
  assumes "good_node gp w y band n"
  shows "start_ok gp w y band (fst n) (start_column n)"
    and "snd n = node_runs gp w y band (fst n) (start_column n)"
proof -
  from assms obtain s where s: "start_ok gp w y band (fst n) s"
    and n: "snd n = node_runs gp w y band (fst n) s"
    by (auto simp: good_node_def)
  from start_column_node_runs [OF s] n have "start_column n = s"
    by (simp add: start_column_def)
  with s n show "start_ok gp w y band (fst n) (start_column n)"
    and "snd n = node_runs gp w y band (fst n) (start_column n)" by simp_all
qed

lemma band_buf_no_earlier:
  assumes "band_buf gp w y band = Inr buf" "0 < band" "band_seed gp w y = Inr (Some (c, s))"
  shows "\<forall>n\<in>set buf. no_earlier gp w y band s n"
proof (cases "buf = []")
  case True
  then show ?thesis by simp
next
  case False
  from band_buf_scan [OF assms(1,2) False] assms(3) obtain mid where
    buf: "buf = mid @ [(c, node_runs gp w y band c s)]"
    and ok: "start_ok gp w y band c s"
    and ch: "chain gp w y band s s mid"
    by auto
  from start_column_node_runs [OF ok]
  have "no_earlier gp w y band s (c, node_runs gp w y band c s)"
    by (auto simp: no_earlier_def)
  with ch buf show ?thesis by (auto simp: chain_def)
qed

text \<open>The scan order and the position at which a colour is first met.\<close>

lemma set_scan_positions:
  "set (scan_positions w band x0) = {p. x0 \<le> fst p \<and> fst p < w \<and> snd p < band}"
  by (auto simp: scan_positions_def)

lemma sorted_wrt_concat_iff:
  "sorted_wrt R (concat xss) \<longleftrightarrow>
     (\<forall>xs\<in>set xss. sorted_wrt R xs) \<and> sorted_wrt (\<lambda>xs ys. \<forall>a\<in>set xs. \<forall>b\<in>set ys. R a b) xss"
  by (induction xss) (auto simp: sorted_wrt_append)

lemma sorted_scan_positions: "sorted_wrt pos_less (scan_positions w band x0)"
proof -
  have "sorted_wrt (\<lambda>i j. pos_less (x, i) (x, j)) [0..<band]" for x
    by (rule sorted_wrt_mono_rel [of _ "(<)"]) (simp_all add: pos_less_def)
  moreover have "sorted_wrt (\<lambda>x x'. \<forall>a\<in>set (map (\<lambda>i. (x, i)) [0..<band]).
        \<forall>b\<in>set (map (\<lambda>i. (x', i)) [0..<band]). pos_less a b) [x0..<w]"
    by (rule sorted_wrt_mono_rel [of _ "(<)"]) (auto simp: pos_less_def)
  ultimately show ?thesis
    by (simp add: scan_positions_def sorted_wrt_concat_iff sorted_wrt_map)
qed

lemma find_least:
  assumes "sorted_wrt R xs" "\<And>a b. R a b \<Longrightarrow> \<not> R b a"
    and "p \<in> set xs" "P p" "\<forall>q\<in>set xs. R q p \<longrightarrow> \<not> P q"
  shows "find P xs = Some p"
  using assms(1,3,5)
proof (induction xs)
  case Nil
  then show ?case by simp
next
  case (Cons a xs)
  show ?case
  proof (cases "P a")
    case True
    have "p = a"
    proof (rule ccontr)
      assume "p \<noteq> a"
      with Cons.prems(2) have "p \<in> set xs" by simp
      with Cons.prems(1) have "R a p" by simp
      with Cons.prems(3) True show False by simp
    qed
    with True show ?thesis by simp
  next
    case False
    with Cons.prems(2) assms(4) have "p \<in> set xs" by auto
    with Cons.IH Cons.prems False show ?thesis by simp
  qed
qed

lemma first_metI:
  assumes "x0 \<le> x" "x < w" "i < band" "gp (y * w + x + w * i) = Inr c"
    and "\<And>x' j. x0 \<le> x' \<Longrightarrow> x' < w \<Longrightarrow> j < band \<Longrightarrow> pos_less (x', j) (x, i)
           \<Longrightarrow> gp (y * w + x' + w * j) \<noteq> Inr c"
  shows "first_met gp w y band x0 c = Some (x, i)"
  unfolding first_met_def
proof (rule find_least [of pos_less])
  show "sorted_wrt pos_less (scan_positions w band x0)" by (rule sorted_scan_positions)
  show "\<not> pos_less b a" if "pos_less a b" for a b
    using that by (auto simp: pos_less_def)
  show "(x, i) \<in> set (scan_positions w band x0)" using assms(1,2,3) by (simp add: set_scan_positions)
  show "gp (y * w + fst (x, i) + w * snd (x, i)) = Inr c" using assms(4) by simp
  show "\<forall>q\<in>set (scan_positions w band x0). pos_less q (x, i) \<longrightarrow> gp (y * w + fst q + w * snd q) \<noteq> Inr c"
  proof (intro ballI impI)
    fix q
    assume q: "q \<in> set (scan_positions w band x0)" "pos_less q (x, i)"
    from q(1) have "x0 \<le> fst q" "fst q < w" "snd q < band" by (simp_all add: set_scan_positions)
    moreover from q(2) have "pos_less (fst q, snd q) (x, i)" by simp
    ultimately show "gp (y * w + fst q + w * snd q) \<noteq> Inr c" by (rule assms(5))
  qed
qed

lemma first_metD:
  assumes "first_met gp w y band x0 c = Some p"
  shows "x0 \<le> fst p" "fst p < w" "snd p < band" "gp (y * w + fst p + w * snd p) = Inr c"
proof -
  from assms have "p \<in> set (scan_positions w band x0)" "gp (y * w + fst p + w * snd p) = Inr c"
    unfolding first_met_def by (auto simp: find_Some_iff)
  then show "x0 \<le> fst p" "fst p < w" "snd p < band" "gp (y * w + fst p + w * snd p) = Inr c"
    by (simp_all add: set_scan_positions)
qed

lemma lifo_Nil: "lifo gp w y band x0 []"
  by (simp add: lifo_def)

lemma col_prefix_Suc:
  assumes "col_prefix gp w y band seen x i" "gp (y * w + x + w * i) = Inr d" "d = BG \<or> d \<in> seen"
  shows "col_prefix gp w y band seen x (i + 1)"
  unfolding col_prefix_def
proof (intro allI impI)
  fix j d'
  assume a: "j < i + 1 \<and> j < band \<and> gp (y * w + x + w * j) = Inr d' \<and> d' \<noteq> BG"
  show "d' \<in> seen"
  proof (cases "j = i")
    case True
    with a assms(2,3) show ?thesis by auto
  next
    case False
    with a have "j < i" by simp
    with a assms(1) show ?thesis unfolding col_prefix_def by blast
  qed
qed

text \<open>
  A colour outside \<^verbatim>\<open>seen\<close> is first met after every position that the scan has
  already passed.
\<close>

lemma unseen_met_later:
  assumes cov: "covered gp w y band seen x0 x" and pre: "col_prefix gp w y band seen x i"
    and e: "e \<notin> seen" "e \<noteq> BG" and p: "first_met gp w y band x0 e = Some p"
  shows "\<not> pos_less p (x, i)"
proof
  assume l: "pos_less p (x, i)"
  note D = first_metD [OF p]
  from l consider "fst p < x" | "fst p = x" "snd p < i" by (auto simp: pos_less_def)
  then show False
  proof cases
    case 1
    with cov D e(2) have "e \<in> seen" unfolding covered_def by blast
    with e(1) show False by simp
  next
    case 2
    with pre D e(2) have "e \<in> seen" unfolding col_prefix_def by blast
    with e(1) show False by simp
  qed
qed

text \<open>
  Every call of \<open>add_node\<close> made by a scan finishes the whole band before it
  returns, so the nodes that a call appends are those of a chain of nested calls: each
  one before the node of the call that discovered its colour.
\<close>

lemma add_node_lifo:
  "add_node gp w y band color start_x seen buf = Inr (seen', buf') \<Longrightarrow>
     color \<noteq> BG \<Longrightarrow> color \<in> seen \<Longrightarrow> covered gp w y band seen x0 start_x \<Longrightarrow> x0 \<le> start_x \<Longrightarrow>
     (\<forall>mid r. buf' = buf @ mid @ [r] \<longrightarrow> lifo gp w y band x0 mid)"
  "add_node_cols gp w y band color x cache run nodes seen buf = Inr (cache', run', nodes', seen', buf') \<Longrightarrow>
     color \<noteq> BG \<Longrightarrow> color \<in> seen \<Longrightarrow> covered gp w y band seen x0 x \<Longrightarrow> x0 \<le> x \<Longrightarrow>
     (\<forall>mid. buf' = buf @ mid \<longrightarrow> lifo gp w y band x0 mid)"
  "add_node_rows gp w y band color x i six seen buf = Inr (six', seen', buf') \<Longrightarrow>
     color \<noteq> BG \<Longrightarrow> color \<in> seen \<Longrightarrow> x < w \<Longrightarrow> covered gp w y band seen x0 x \<Longrightarrow> x0 \<le> x \<Longrightarrow>
     col_prefix gp w y band seen x i \<Longrightarrow>
     (\<forall>mid. buf' = buf @ mid \<longrightarrow> lifo gp w y band x0 mid)"
proof (induction gp w y band color start_x seen buf
    and gp w y band color x cache run nodes seen buf
    and gp w y band color x i six seen buf
    arbitrary: seen' buf' and cache' run' nodes' seen' buf' and six' seen' buf'
    rule: add_node_add_node_cols_add_node_rows.induct)
  case (1 gp w y band color start_x seen buf)
  let ?init = "if start_x \<noteq> 0 then [(0, start_x)] else []"
  from "1.prems"(1) obtain cache run nodes b1 n where
    r: "add_node_cols gp w y band color start_x None 0 ?init seen buf = Inr (cache, run, nodes, seen', b1)"
    and b: "buf' = b1 @ [n]"
    by (auto simp: add_node.simps [of gp w y band color start_x seen buf] split: sum.splits)
  from "1.IH" [OF r "1.prems"(2,3,4,5)] have
    ch: "\<And>mid. b1 = buf @ mid \<Longrightarrow> lifo gp w y band x0 mid"
    by blast
  have "lifo gp w y band x0 mid" if "buf' = buf @ mid @ [r']" for mid r'
  proof -
    from that b have "b1 @ [n] = (buf @ mid) @ [r']" by simp
    then have "b1 = buf @ mid" by (simp only: append1_eq_conv)
    then show ?thesis by (rule ch)
  qed
  then show ?case by blast
next
  case (2 gp w y band color x cache run nodes seen buf)
  note eq = add_node_cols.simps [of gp w y band color x cache run nodes seen buf]
  show ?case
  proof (cases "x < w")
    case False
    with "2.prems"(1) have "buf' = buf" by (simp_all add: eq)
    then show ?thesis by (simp add: lifo_Nil)
  next
    case True
    from "2.prems"(1) True obtain six s1 b1 where
      r: "add_node_rows gp w y band color x 0 0 seen buf = Inr (six, s1, b1)"
      by (auto simp: eq split: sum.splits)
    have p0: "col_prefix gp w y band seen x 0" by (simp add: col_prefix_def)
    from "2.IH"(1) [OF True r "2.prems"(2,3) True "2.prems"(4,5) p0] have
      R4: "\<And>mid. b1 = buf @ mid \<Longrightarrow> lifo gp w y band x0 mid"
      by blast
    from add_node_scan(3) [OF r "2.prems"(2,3) True "2.prems"(4)] have
      R1: "covered_col gp w y band s1 x 0"
      and R3: "(s1 = seen \<and> b1 = buf) \<or> covered gp w y band s1 x w"
      by blast+
    from add_node_result(3) [OF r "2.prems"(2,3) True] have m1: "seen \<subseteq> s1"
      by (auto dest: new_nodes_mono)
    with "2.prems"(3) have c1: "color \<in> s1" by blast
    from "2.prems"(4) m1 have "covered gp w y band s1 x0 x" by (rule covered_mono)
    then have pre: "covered gp w y band s1 x0 (x + 1)" using R1 by (rule covered_step)
    from "2.prems"(5) have le: "x0 \<le> x + 1" by simp
    from "2.prems"(1) True r
    have unf: "(case cache of
                None \<Rightarrow> add_node_cols gp w y band color (x + 1) (Some six) 1 nodes s1 b1
              | Some c \<Rightarrow>
                  if six = c
                  then add_node_cols gp w y band color (x + 1) cache (run + 1) nodes s1 b1
                  else add_node_cols gp w y band color (x + 1) (Some six) 1
                         (nodes @ [(c, run)]) s1 b1) = Inr (cache', run', nodes', seen', buf')"
      by (simp add: eq)
    have "(covered gp w y band s1 (x + 1) w \<longrightarrow> seen' = s1 \<and> buf' = b1)
        \<and> (\<forall>mid. buf' = b1 @ mid \<longrightarrow> lifo gp w y band x0 mid)"
    proof (cases cache)
      case None
      from None unf
      have c: "add_node_cols gp w y band color (x + 1) (Some six) 1 nodes s1 b1
             = Inr (cache', run', nodes', seen', buf')"
        by simp
      from add_node_scan(2) [OF c "2.prems"(2) c1 pre]
        "2.IH"(2) [OF True r refl refl None c "2.prems"(2) c1 pre le]
      show ?thesis by blast
    next
      case (Some c0)
      show ?thesis
      proof (cases "six = c0")
        case same: True
        from same Some unf
        have c: "add_node_cols gp w y band color (x + 1) cache (run + 1) nodes s1 b1
             = Inr (cache', run', nodes', seen', buf')"
          by simp
        from add_node_scan(2) [OF c "2.prems"(2) c1 pre]
          "2.IH"(3) [OF True r refl refl Some same c "2.prems"(2) c1 pre le]
        show ?thesis by blast
      next
        case diff: False
        from diff Some unf
        have c: "add_node_cols gp w y band color (x + 1) (Some six) 1 (nodes @ [(c0, run)]) s1 b1
             = Inr (cache', run', nodes', seen', buf')"
          by simp
        from add_node_scan(2) [OF c "2.prems"(2) c1 pre]
          "2.IH"(4) [OF True r refl refl Some diff c "2.prems"(2) c1 pre le]
        show ?thesis by blast
      qed
    qed
    then have C2: "covered gp w y band s1 (x + 1) w \<Longrightarrow> seen' = s1 \<and> buf' = b1"
      and C3: "\<And>mid. buf' = b1 @ mid \<Longrightarrow> lifo gp w y band x0 mid"
      by blast+
    have "lifo gp w y band x0 mid" if mid: "buf' = buf @ mid" for mid
      using R3
    proof
      assume "s1 = seen \<and> b1 = buf"
      with mid C3 show ?thesis by simp
    next
      assume "covered gp w y band s1 x w"
      then have "covered gp w y band s1 (x + 1) w" by (rule covered_tail)
      then have "seen' = s1 \<and> buf' = b1" by (rule C2)
      with mid have "b1 = buf @ mid" by simp
      then show ?thesis by (rule R4)
    qed
    then show ?thesis by blast
  qed
next
  case (3 gp w y band color x i six seen buf)
  note eq = add_node_rows.simps [of gp w y band color x i six seen buf]
  show ?case
  proof (cases "i < band")
    case False
    with "3.prems"(1) have "buf' = buf" by (simp_all add: eq)
    then show ?thesis by (simp add: lifo_Nil)
  next
    case True
    from "3.prems"(1) True obtain d where d: "gp (y * w + x + w * i) = Inr d"
      by (auto simp: eq split: sum.splits)
    consider (bg) "d = BG" | (own) "d \<noteq> BG" "d = color"
      | (new) "d \<noteq> BG" "d \<noteq> color" "d \<notin> seen"
      | (old) "d \<noteq> BG" "d \<noteq> color" "\<not> d \<notin> seen"
      by blast
    then show ?thesis
    proof cases
      case bg
      with "3.prems"(1) True d
      have c: "add_node_rows gp w y band color x (i + 1) six seen buf = Inr (six', seen', buf')"
        by (simp add: eq)
      from bg have "d = BG \<or> d \<in> seen" by simp
      with "3.prems"(7) d have "col_prefix gp w y band seen x (i + 1)" by (rule col_prefix_Suc)
      with "3.IH"(1) [OF True d bg c "3.prems"(2,3,4,5,6)] show ?thesis by blast
    next
      case own
      with "3.prems"(1) True d
      have c: "add_node_rows gp w y band color x (i + 1) (six OR push_bit i 1) seen buf
          = Inr (six', seen', buf')"
        by (simp add: eq)
      from own "3.prems"(3) have "d = BG \<or> d \<in> seen" by simp
      with "3.prems"(7) d have "col_prefix gp w y band seen x (i + 1)" by (rule col_prefix_Suc)
      with "3.IH"(2) [OF True d own c "3.prems"(2,3,4,5,6)] show ?thesis by blast
    next
      case old
      with "3.prems"(1) True d
      have c: "add_node_rows gp w y band color x (i + 1) six seen buf = Inr (six', seen', buf')"
        by (simp add: eq)
      from old have "d = BG \<or> d \<in> seen" by simp
      with "3.prems"(7) d have "col_prefix gp w y band seen x (i + 1)" by (rule col_prefix_Suc)
      with "3.IH"(5) [OF True d old c "3.prems"(2,3,4,5,6)] show ?thesis by blast
    next
      case new
      with "3.prems"(1) True d obtain s1 b1 where
        r: "add_node gp w y band d x (insert d seen) buf = Inr (s1, b1)"
        by (auto simp: eq split: sum.splits)
      with new "3.prems"(1) True d
      have c: "add_node_rows gp w y band color x (i + 1) six s1 b1 = Inr (six', seen', buf')"
        by (simp add: eq)
      have pre1: "covered gp w y band (insert d seen) x0 x"
        using "3.prems"(5) by (rule covered_mono) blast
      from "3.IH"(3) [OF True d new r new(1) _ pre1 "3.prems"(6)] have
        A2: "\<And>mid r. b1 = buf @ mid @ [r] \<Longrightarrow> lifo gp w y band x0 mid"
        by blast
      from add_node_scan(1) [OF r new(1) _ pre1] have
        A1: "covered gp w y band s1 x w"
        by blast
      from add_node_result(1) [OF r new(1)] obtain mid1 where
        b1: "b1 = buf @ mid1 @ [(d, node_runs gp w y band d x)]"
        and nn: "new_nodes (good_node gp w y band) (insert d seen) s1 mid1"
        by auto
      from nn have m1: "insert d seen \<subseteq> s1" by (rule new_nodes_mono)
      from m1 "3.prems"(3) have c1: "color \<in> s1" by blast
      from m1 have "seen \<subseteq> s1" by blast
      with "3.prems"(5) have pre2: "covered gp w y band s1 x0 x" by (rule covered_mono)
      from A1 "3.prems"(4) have "covered_col gp w y band s1 x (i + 1)" by (rule covered_colD)
      with add_node_scan(3) [OF c "3.prems"(2) c1 "3.prems"(4) pre2]
      have e: "seen' = s1" "buf' = b1" by blast+
      from True d "3.prems"(4) have ok: "start_ok gp w y band d x"
        unfolding start_ok_def by blast
      then have sc: "start_column (d, node_runs gp w y band d x) = x"
        by (rule start_column_node_runs)
      have fd: "first_met gp w y band x0 d = Some (x, i)"
        using "3.prems"(6,4) True d
      proof (rule first_metI)
        fix x' j
        assume a: "x0 \<le> x'" "x' < w" "j < band" "pos_less (x', j) (x, i)"
        show "gp (y * w + x' + w * j) \<noteq> Inr d"
        proof
          assume g: "gp (y * w + x' + w * j) = Inr d"
          from a(4) consider "x' < x" | "x' = x" "j < i" by (auto simp: pos_less_def)
          then have "d \<in> seen"
          proof cases
            case 1
            with a g new(1) "3.prems"(5) show ?thesis unfolding covered_def by blast
          next
            case 2
            with a g new(1) "3.prems"(7) show ?thesis unfolding col_prefix_def by blast
          qed
          with new(3) show False by simp
        qed
      qed
      from b1 have l1: "lifo gp w y band x0 mid1" by (rule A2)
      have later: "met_before gp w y band x0 d (fst n)" if n: "n \<in> set mid1" for n
      proof -
        from l1 n obtain k where p: "first_met gp w y band x0 (fst n) = Some (start_column n, k)"
          unfolding lifo_def by blast
        from nn n have u: "fst n \<notin> insert d seen" "good_node gp w y band n"
          unfolding new_nodes_def by auto
        then have u': "fst n \<notin> seen" "fst n \<noteq> d" "fst n \<noteq> BG" by (simp_all add: good_node_def)
        from unseen_met_later [OF "3.prems"(5,7) u'(1,3) p]
        have nl: "\<not> pos_less (start_column n, k) (x, i)" .
        from first_metD(4) [OF p] d u'(2) have "(start_column n, k) \<noteq> (x, i)" by auto
        with nl have "pos_less (x, i) (start_column n, k)" by (auto simp: pos_less_def)
        with fd p show ?thesis by (simp add: met_before_def)
      qed
      have D: "lifo gp w y band x0 mid" if mid: "buf' = buf @ mid" for mid
      proof -
        from mid e b1 have m: "mid = mid1 @ [(d, node_runs gp w y band d x)]" by simp
        from l1 later fd sc show ?thesis
          unfolding m lifo_def by (auto simp: sorted_wrt_append)
      qed
      then show ?thesis by blast
    qed
  qed
qed

text \<open>The 2\<times>3 band: its buffer, its seed, and where its colours are first met.\<close>

lemma band_buf_2x3:
  "band_buf band_2x3 2 0 3 =
     Inr [(4, [(0, 1), (4, 1)]), (3, [(0, 1), (3, 1)]), (2, [(4, 1), (0, 1)]),
          (1, [(2, 1), (0, 1)]), (0, [(1, 1), (0, 1)])]"
  by (simp add: band_2x3_def band_eval)

lemma band_seed_2x3: "band_seed band_2x3 2 0 = Inr (Some (0, 0))"
  by (simp add: band_seed_def band_2x3_def get_pixel_def index_def BG_def)

lemma first_met_2x3:
  "map (first_met band_2x3 2 0 3 0) [4, 3, 2, 1, 0]
     = [Some (1, 2), Some (1, 0), Some (0, 2), Some (0, 1), Some (0, 0)]"
  by code_simp

lemma band_buf_lifo:
  assumes "band_buf gp w y band = Inr buf" "0 < band" "0 < w"
    and "band_seed gp w y = Inr (Some (c, s))"
  shows "\<exists>mid. buf = mid @ [(c, node_runs gp w y band c s)]
     \<and> first_met gp w y band s c = Some (s, 0)
     \<and> start_column (c, node_runs gp w y band c s) = s
     \<and> lifo gp w y band s mid
     \<and> (\<forall>n\<in>set mid. met_before gp w y band s c (fst n))"
proof -
  from band_seed_Some [OF assms(4)] assms(3)
  have c: "c \<noteq> BG" and g: "gp (y * w + s) = Inr c" and s: "s < w" by auto
  from assms(1,4) obtain seen' where a: "add_node gp w y band c s {c} [] = Inr (seen', buf)"
    by (auto simp: band_buf_seed split: sum.splits)
  from add_node_result(1) [OF a c] obtain mid where
    buf: "buf = mid @ [(c, node_runs gp w y band c s)]"
    and nn: "new_nodes (good_node gp w y band) {c} seen' mid"
    by auto
  have cov: "covered gp w y band {c} s s" by (simp add: covered_def)
  from add_node_lifo(1) [OF a c _ cov] buf have l: "lifo gp w y band s mid" by simp
  from g have g0: "gp (y * w + s + w * 0) = Inr c" by simp
  have fc: "first_met gp w y band s c = Some (s, 0)"
    using le_refl s assms(2) g0
  proof (rule first_metI)
    fix x' j
    assume "s \<le> x'" "pos_less (x', j) (s, 0)"
    then show "gp (y * w + x' + w * j) \<noteq> Inr c" by (simp add: pos_less_def)
  qed
  from g0 s assms(2) have "start_ok gp w y band c s" unfolding start_ok_def by blast
  then have sc: "start_column (c, node_runs gp w y band c s) = s" by (rule start_column_node_runs)
  have "met_before gp w y band s c (fst n)" if n: "n \<in> set mid" for n
  proof -
    from l n obtain k where p: "first_met gp w y band s (fst n) = Some (start_column n, k)"
      unfolding lifo_def by blast
    from nn n have nc: "fst n \<noteq> c" unfolding new_nodes_def by auto
    have "(start_column n, k) \<noteq> (s, 0)"
    proof
      assume "(start_column n, k) = (s, 0)"
      with first_metD(4) [OF p] have "gp (y * w + s + w * 0) = Inr (fst n)" by simp
      with g0 nc show False by simp
    qed
    with first_metD(1) [OF p] have "pos_less (s, 0) (start_column n, k)"
      by (auto simp: pos_less_def)
    with fc p show ?thesis by (simp add: met_before_def)
  qed
  with buf fc sc l show ?thesis by blast
qed

text \<open>
  Claim C3, as amended. In every band of an image of positive width the nodes are emitted
  in reverse discovery order, last discovered first. A colour is discovered at the first
  position with that colour that the scan reads, going from the seed column to the right
  and from top to bottom within a column. Each node starts at the column where its colour
  was discovered; of two nodes of a band, the one emitted earlier has its colour
  discovered strictly later; and the seeded colour, discovered at the seed column in the
  band's first row, is emitted last. A band without a seed emits no node.
\<close>

theorem emission_order:
  assumes "band_buf gp w y band = Inr buf" "0 < band" "0 < w"
  shows "(buf = [] \<longrightarrow> band_seed gp w y = Inr None)
    \<and> (buf \<noteq> [] \<longrightarrow>
         (\<exists>s. band_seed gp w y = Inr (Some (fst (last buf), s))
            \<and> first_met gp w y band s (fst (last buf)) = Some (s, 0)
            \<and> (\<forall>n\<in>set buf. \<exists>i. first_met gp w y band s (fst n) = Some (start_column n, i))
            \<and> sorted_wrt (\<lambda>m n. met_before gp w y band s (fst n) (fst m)) buf))"
proof (cases "band_seed gp w y")
  case (Inl e)
  with assms(1) show ?thesis by (simp add: band_buf_seed)
next
  case (Inr seed)
  show ?thesis
  proof (cases seed)
    case None
    with Inr assms(1) show ?thesis by (simp add: band_buf_seed)
  next
    case (Some cs)
    obtain c s where cs: "cs = (c, s)" by (cases cs)
    with Inr Some have seed: "band_seed gp w y = Inr (Some (c, s))" by simp
    from band_buf_lifo [OF assms seed] obtain mid where
      buf: "buf = mid @ [(c, node_runs gp w y band c s)]"
      and fc: "first_met gp w y band s c = Some (s, 0)"
      and sc: "start_column (c, node_runs gp w y band c s) = s"
      and l: "lifo gp w y band s mid"
      and mb: "\<forall>n\<in>set mid. met_before gp w y band s c (fst n)"
      by blast
    from buf have L: "last buf = (c, node_runs gp w y band c s)" and ne: "buf \<noteq> []" by simp_all
    from l fc sc
    have A: "\<forall>n\<in>set buf. \<exists>i. first_met gp w y band s (fst n) = Some (start_column n, i)"
      unfolding buf lifo_def by auto
    from l mb have B: "sorted_wrt (\<lambda>m n. met_before gp w y band s (fst n) (fst m)) buf"
      unfolding buf lifo_def by (auto simp: sorted_wrt_append)
    from seed fc have "band_seed gp w y = Inr (Some (fst (last buf), s))"
      "first_met gp w y band s (fst (last buf)) = Some (s, 0)"
      by (simp_all add: L)
    with A B ne show ?thesis by blast
  qed
qed

theorem emission_order_witness:
  "band_buf band_2x3 2 0 3 =
     Inr [(4, [(0, 1), (4, 1)]), (3, [(0, 1), (3, 1)]), (2, [(4, 1), (0, 1)]),
          (1, [(2, 1), (0, 1)]), (0, [(1, 1), (0, 1)])]
   \<and> band_seed band_2x3 2 0 = Inr (Some (0, 0))
   \<and> map (first_met band_2x3 2 0 3 0) [4, 3, 2, 1, 0]
       = [Some (1, 2), Some (1, 0), Some (0, 2), Some (0, 1), Some (0, 0)]
   \<and> sorted_wrt (\<lambda>m n. met_before band_2x3 2 0 3 0 (fst n) (fst m))
       [(4, [(0, 1), (4, 1)]), (3, [(0, 1), (3, 1)]), (2, [(4, 1), (0, 1)]),
        (1, [(2, 1), (0, 1)]), (0, [(1 :: nat, 1 :: nat), (0, 1)])]"
proof -
  have "(0 :: nat) < 3" "(0 :: nat) < 2" by simp_all
  from emission_order [OF band_buf_2x3 this, THEN conjunct2] band_seed_2x3
  have "sorted_wrt (\<lambda>m n. met_before band_2x3 2 0 3 0 (fst n) (fst m))
       [(4, [(0, 1), (4, 1)]), (3, [(0, 1), (3, 1)]), (2, [(4, 1), (0, 1)]),
        (1, [(2, 1), (0, 1)]), (0, [(1 :: nat, 1 :: nat), (0, 1)])]"
    by auto
  with band_buf_2x3 band_seed_2x3 first_met_2x3 show ?thesis by blast
qed

text \<open>
  Claim C3 as stated fails on the 6\<times>2 band: colour 0 seeds the band and the colours
  1, 2, 3, 4 are first met at the columns 1, 2, 4, 5, yet the buffer lists them as
  4, 3, 2, 1, 0.
\<close>

theorem fifo_order_counterexample:
  "band_seed band_6x2 6 0 = Inr (Some (0, 0))
   \<and> band_buf band_6x2 6 0 2 =
     Inr [(4, [(0, 5), (2, 1)]), (3, [(0, 4), (1, 2)]), (2, [(0, 2), (1, 1), (0, 3)]),
          (1, [(0, 1), (1, 1), (0, 4)]), (0, [(3, 1), (2, 2), (3, 1), (2, 1), (0, 1)])]
   \<and> map start_column
        [(4, [(0, 5), (2, 1)]), (3, [(0, 4), (1, 2)]), (2, [(0, 2), (1, 1), (0, 3)]),
          (1, [(0, 1), (1, 1), (0, 4)]), (0, [(3, 1), (2, 2), (3, 1), (2, 1), (0, 1)])]
      = [5, 4, 2, 1, 0]"
  using band_seed_6x2 band_buf_6x2 start_columns_6x2 by blast

lemma filter_unique:
  assumes "distinct xs" "n \<in> set xs" "P n" "\<forall>m\<in>set xs. P m \<longrightarrow> m = n"
  shows "filter P xs = [n]"
proof -
  from assms(2) obtain ys zs where xs: "xs = ys @ n # zs" by (auto simp: in_set_conv_decomp)
  with assms(1) have "n \<notin> set ys" "n \<notin> set zs" by auto
  with assms(4) xs have "\<forall>m\<in>set ys. \<not> P m" "\<forall>m\<in>set zs. \<not> P m" by auto
  then have "filter P ys = []" "filter P zs = []" by (simp_all add: filter_empty_conv)
  with xs assms(3) show ?thesis by simp
qed

text \<open>
  The round trip that does hold: from the seed column on, every visible pixel of the band
  decodes to its own palette index. Columns to the left of the seed column are never
  scanned.
\<close>

lemma band_buf_roundtrip:
  assumes buf: "band_buf gp w y band = Inr buf" and band: "0 < band"
    and seed: "band_seed gp w y = Inr (Some (c, s))"
    and x: "s \<le> x" "x < w" and j: "j < band"
    and d: "gp (y * w + x + w * j) = Inr d" "d \<noteq> BG"
  shows "decode_pixel buf x j = Some d"
proof -
  from seed buf have ne: "buf \<noteq> []"
    by (auto simp: band_buf_seed add_node.simps [of gp w y band c s] split: sum.splits)
  from band_buf_scan [OF buf band ne] seed obtain seen' mid where
    b: "buf = mid @ [(c, node_runs gp w y band c s)]"
    and ok: "start_ok gp w y band c s"
    and new: "new_nodes (good_node gp w y band) {c} seen' mid"
    and cov: "covered gp w y band seen' s w"
    and ch: "chain gp w y band s s mid"
    by auto
  from cov x j d have "d \<in> seen'" unfolding covered_def by blast
  with new b have "d \<in> fst ` set buf" by (auto simp: new_nodes_def)
  then obtain n where n: "n \<in> set buf" "fst n = d" by auto
  note good = band_buf_good [OF buf band]
  from good(2) n(1) have g: "good_node gp w y band n" by blast
  from band_buf_no_earlier [OF buf band seed] n(1) have "no_earlier gp w y band s n" by blast
  have sx: "start_column n \<le> x"
  proof (rule ccontr)
    assume "\<not> start_column n \<le> x"
    with x(1) j have "s \<le> x \<and> x < start_column n \<and> j < band" by simp
    with \<open>no_earlier gp w y band s n\<close> have "gp (y * w + x + w * j) \<noteq> Inr (fst n)"
      unfolding no_earlier_def by blast
    with d(1) n(2) show False by simp
  qed
  from good_node_start [OF g] have ok': "start_ok gp w y band d (start_column n)"
    and runs: "snd n = node_runs gp w y band d (start_column n)"
    by (simp_all add: n(2))
  from ok' have "start_column n \<le> w" by (auto simp: start_ok_def)
  with x sx have "expand_runs (snd n) ! x = column_six gp w y band d x"
    by (simp add: runs nth_expand_node_runs)
  moreover from ok' have "length (expand_runs (snd n)) = w"
    by (auto simp: runs expand_node_runs start_ok_def)
  ultimately have bit: "node_bit n x j"
    using x j d(1) by (simp add: node_bit_def bit_column_six)
  from band_buf_mutual_exclusion [OF buf band n(1) bit]
  have uniq: "\<forall>m\<in>set buf. node_bit m x j \<longrightarrow> m = n" by blast
  from good(1) have dist: "distinct buf" by (simp add: distinct_map)
  from dist n(1) bit uniq have "filter (\<lambda>n. node_bit n x j) buf = [n]"
    by (rule filter_unique)
  with n(2) show ?thesis by (simp add: decode_pixel_def)
qed

text \<open>
  The colours of a band's nodes: each once, and exactly the visible colours of the
  columns from the seed column on.
\<close>

lemma band_buf_colors:
  assumes buf: "band_buf gp w y band = Inr buf" and band: "0 < band" and w: "0 < w"
    and seed: "band_seed gp w y = Inr (Some (c, s))"
  shows "distinct (map fst buf)"
    and "fst ` set buf =
      {d. d \<noteq> BG \<and> (\<exists>x j. s \<le> x \<and> x < w \<and> j < band \<and> gp (y * w + x + w * j) = Inr d)}"
proof -
  from band_buf_good(1) [OF buf band] show "distinct (map fst buf)" .
  from seed buf have ne: "buf \<noteq> []"
    by (auto simp: band_buf_seed add_node.simps [of gp w y band c s] split: sum.splits)
  from band_buf_scan [OF buf band ne] seed obtain seen' mid where
    b: "buf = mid @ [(c, node_runs gp w y band c s)]"
    and ok: "start_ok gp w y band c s"
    and new: "new_nodes (good_node gp w y band) {c} seen' mid"
    and cov: "covered gp w y band seen' s w"
    and ch: "chain gp w y band s s mid"
    by auto
  from new b have colors: "fst ` set buf = seen'" by (auto simp: new_nodes_def)
  have "d \<in> seen'" if "d \<noteq> BG" "s \<le> x" "x < w" "j < band" "gp (y * w + x + w * j) = Inr d"
    for d x j
    using cov that unfolding covered_def by blast
  moreover have "fst n \<noteq> BG \<and> (\<exists>x j. s \<le> x \<and> x < w \<and> j < band \<and> gp (y * w + x + w * j) = Inr (fst n))"
    if n: "n \<in> set buf" for n
  proof -
    from band_buf_good(2) [OF buf band] n have g: "good_node gp w y band n" by blast
    from good_node_start(1) [OF g] w obtain j where
      "start_column n < w" "j < band" "gp (y * w + start_column n + w * j) = Inr (fst n)"
      by (auto simp: start_ok_def)
    moreover have "s \<le> start_column n"
    proof (cases "n \<in> set mid")
      case True
      with ch show ?thesis by (auto simp: chain_def)
    next
      case False
      with n b have "n = (c, node_runs gp w y band c s)" by simp
      with start_column_node_runs [OF ok] show ?thesis by simp
    qed
    moreover from g have "fst n \<noteq> BG" by (simp add: good_node_def)
    ultimately show ?thesis by blast
  qed
  ultimately show "fst ` set buf =
      {d. d \<noteq> BG \<and> (\<exists>x j. s \<le> x \<and> x < w \<and> j < band \<and> gp (y * w + x + w * j) = Inr d)}"
    unfolding colors [symmetric] by (auto simp: image_iff) 
qed

text \<open>
  Claim C1 at a failing input. In the band \<open>band_hidden\<close> the pixel at column 0,
  sub-row 1 is visible with palette index 2; the band's buffer holds the node of colour 1
  only, and the reference decoder finds no colour at that pixel.
\<close>

theorem roundtrip_fails_left_of_seed:
  "(band_hidden 2 = Inr 2 \<and> 2 \<noteq> BG)
   \<and> band_buf band_hidden 2 0 2 = Inr [(1, [(0, 1), (3, 1)])]
   \<and> decode_pixel [(1, [(0, 1), (3, 1)])] 0 1 = None"
  using band_hidden_visible band_buf_hidden decode_hidden by blast

text \<open>
  Claim C2 at a failing input. Colour 2 has a visible pixel in the band
  \<open>band_hidden\<close>, and the band's buffer has no node for it: its only node is that of
  colour 1.
\<close>

theorem visible_color_without_node:
  "(band_hidden 2 = Inr 2 \<and> 2 \<noteq> BG)
   \<and> band_buf band_hidden 2 0 2 = Inr [(1, [(0, 1), (3, 1)])]
   \<and> map fst [(1 :: nat, [(0 :: nat, 1 :: nat), (3, 1)])] = [1]"
  using band_hidden_visible band_buf_hidden by simp

text \<open>
  From the seed column on, every visible pixel of a band belongs to the bitmask of exactly
  one node, that of its own colour.
\<close>

lemma bitmask_cover_from_seed:
  assumes buf: "band_buf gp w y band = Inr buf" and band: "0 < band"
    and seed: "band_seed gp w y = Inr (Some (c, s))"
    and x: "s \<le> x" "x < w" and j: "j < band"
    and d: "gp (y * w + x + w * j) = Inr d" "d \<noteq> BG"
  shows "\<exists>n. filter (\<lambda>n. node_bit n x j) buf = [n] \<and> fst n = d"
proof -
  from band_buf_roundtrip [OF buf band seed x j d]
  have dec: "decode_pixel buf x j = Some d" .
  then obtain n ns where f: "filter (\<lambda>n. node_bit n x j) buf = n # ns"
    and l: "fst (last (n # ns)) = d"
    by (auto simp: decode_pixel_def split: list.splits)
  let ?m = "last (n # ns)"
  have "?m \<in> set (filter (\<lambda>n. node_bit n x j) buf)" unfolding f by (rule last_in_set) simp
  then have m: "?m \<in> set buf" "node_bit ?m x j" by simp_all
  from band_buf_mutual_exclusion [OF buf band m]
  have u: "\<forall>k\<in>set buf. node_bit k x j \<longrightarrow> k = ?m" by blast
  have "distinct buf" using band_buf_good(1) [OF buf band] by (simp add: distinct_map)
  from filter_unique [OF this m u] l show ?thesis by blast
qed

text \<open>
  Claim C4 at a failing input. In the band \<open>band_hidden\<close> the pixel at column 0,
  sub-row 1 is visible with palette index 2; the band's buffer holds the node of colour 1
  only, so that this visible pixel belongs to the bitmask of no node.
\<close>

theorem visible_pixel_in_no_bitmask:
  "(band_hidden 2 = Inr 2 \<and> 2 \<noteq> BG)
   \<and> band_buf band_hidden 2 0 2 = Inr [(1, [(0, 1), (3, 1)])]
   \<and> filter (\<lambda>n. node_bit n 0 1) [(1, [(0, 1), (3, 1)])] = []"
  using band_hidden_visible band_buf_hidden filter_hidden by blast

section \<open>Bands and separators\<close>

lemma py_range_6_from:
  "py_range s h 6 = map (\<lambda>k. s + 6 * k) [0..<(h - s + 5) div 6]"
proof (induction s h "6 :: nat" rule: py_range.induct)
  case (1 start stop)
  show ?case
  proof (cases "start < stop")
    case False
    then show ?thesis by (simp add: py_range.simps [of start stop])
  next
    case True
    then obtain n where n: "(stop - start + 5) div 6 = Suc n" "(stop - (start + 6) + 5) div 6 = n"
      by (cases "(stop - start + 5) div 6") (auto simp: div_eq_0_iff)
    from True "1.hyps" have "py_range (start + 6) stop 6 = map (\<lambda>k. start + 6 + 6 * k) [0..<n]"
      by (simp add: n)
    moreover have "map (\<lambda>k. start + 6 * k) [0..<Suc n]
        = (start + 6 * 0) # map (\<lambda>k. start + 6 * Suc k) [0..<n]"
      by (rule map_upt_Suc)
    moreover from True have "py_range start stop 6 = start # py_range (start + 6) stop 6"
      by (simp add: py_range.simps [of start stop])
    ultimately show ?thesis
      unfolding n(1) by (simp add: add.assoc)
  qed
qed

lemma py_range_6: "py_range 0 h 6 = map (\<lambda>k. 6 * k) [0..<(h + 5) div 6]"
  using py_range_6_from [of 0 h] by simp

lemma write_bands_Returned:
  "write_bands gp w h ys out = Returned out' \<Longrightarrow>
     out' = out @ concat (map (\<lambda>y. band_text gp w h y @ (if y + 6 < h then ''-'' else [])) ys)"
proof (induction ys arbitrary: out)
  case Nil
  then show ?case by simp
next
  case (Cons y ys)
  from Cons.prems obtain buf where buf: "band_buf gp w y (min 6 (h - y)) = Inr buf"
    by (auto split: sum.splits)
  let ?out1 = "if y + 6 < h then write_buf buf out @ ''-'' else write_buf buf out"
  from Cons.prems buf have "write_bands gp w h ys ?out1 = Returned out'" by simp
  from Cons.IH [OF this] have "out' = ?out1
      @ concat (map (\<lambda>y. band_text gp w h y @ (if y + 6 < h then ''-'' else [])) ys)" .
  moreover have "?out1 = out @ band_text gp w h y @ (if y + 6 < h then ''-'' else [])"
    using buf write_buf_text [of buf out] write_buf_text [of buf "[]"]
    by (simp add: band_text_def)
  ultimately show ?case by simp
qed

lemma dash_notin_dec: "CHR ''-'' \<notin> set (dec n)"
proof (induction n rule: dec.induct)
  case (1 n)
  have d: "char_of (48 + k) \<noteq> CHR ''-''" if "k < 10" for k :: nat
    using that by (simp add: char_of_eq_iff take_bit_nat_eq_self)
  show ?case
  proof (cases "n < 10")
    case True
    with d [of n] show ?thesis by (simp add: dec.simps [of n])
  next
    case False
    with "1.IH" d [of "n mod 10"] show ?thesis by (simp add: dec.simps [of n])
  qed
qed

lemma dash_notin_write_run:
  assumes "six < 64"
  shows "CHR ''-'' \<notin> set (write_run (six, count) [])"
proof -
  from assms have "char_of (63 + six) \<noteq> CHR ''-''"
    by (simp add: char_of_eq_iff take_bit_nat_eq_self)
  then show ?thesis by (auto simp: write_run_def Let_def dash_notin_dec)
qed

lemma good_node_symbols:
  assumes "good_node gp w y band n" "band \<le> 6" "r \<in> set (snd n)"
  shows "fst r < 64"
proof -
  from assms(1) obtain s where s: "start_ok gp w y band (fst n) s"
    and n: "snd n = node_runs gp w y band (fst n) s"
    by (auto simp: good_node_def)
  from wf_node_runs [OF s] n assms(3) have "snd r \<noteq> 0" by (auto simp: wf_runs_def)
  with assms(3) have "fst r \<in> set (expand_runs (snd n))"
    by (force simp: expand_runs_def)
  then have "fst r = 0 \<or> (\<exists>x. fst r = column_six gp w y band (fst n) x)"
    by (auto simp: n expand_node_runs)
  moreover have "column_six gp w y band (fst n) x < 64" for x
  proof -
    have "column_six gp w y band (fst n) x < 2 ^ band" by (rule column_six_less)
    also from assms(2) have "(2 :: nat) ^ band \<le> 2 ^ 6" by (intro power_increasing) simp_all
    finally show ?thesis by simp
  qed
  ultimately show ?thesis by auto
qed

lemma dash_notin_band_text:
  assumes "y < h"
  shows "CHR ''-'' \<notin> set (band_text gp w h y)"
proof (cases "band_buf gp w y (min 6 (h - y))")
  case (Inl e)
  then show ?thesis by (simp add: band_text_def)
next
  case (Inr buf)
  from assms have pos: "0 < min 6 (h - y)" by simp
  have "CHR ''-'' \<notin> set (write_run r [])" if "n \<in> set buf" "r \<in> set (snd n)" for n r
  proof -
    from band_buf_good(2) [OF Inr pos] that(1) have "good_node gp w y (min 6 (h - y)) n" by blast
    from good_node_symbols [OF this _ that(2)] have "fst r < 64" by simp
    from dash_notin_write_run [OF this, of "snd r"] show ?thesis by simp
  qed
  with Inr show ?thesis
    by (auto simp: band_text_def write_buf_text dash_notin_dec)
qed

lemma count_list_concat:
  "count_list (concat xss) c = sum_list (map (\<lambda>xs. count_list xs c) xss)"
  by (induction xss) simp_all

lemma sum_separators:
  "sum_list (map (\<lambda>k. if k + 1 < n then 1 else 0) [0..<m]) = min m (n - 1 :: nat)"
  by (induction m) auto

lemma band_index_sep: "6 * k + 6 < (h :: nat) \<longleftrightarrow> k + 1 < (h + 5) div 6"
  by arith

text \<open>
  The loop over the bands alone: the rows at which bands start, the text the loop appends,
  and the number of separators in it.
\<close>

lemma write_bands_separators:
  assumes "write_bands gp w h (py_range 0 h 6) out = Returned out'"
  shows "py_range 0 h 6 = map (\<lambda>k. 6 * k) [0..<(h + 5) div 6]
    \<and> out' = out @ concat (map (\<lambda>k. band_text gp w h (6 * k)
                 @ (if k + 1 < (h + 5) div 6 then ''-'' else [])) [0..<(h + 5) div 6])
    \<and> (\<forall>k<(h + 5) div 6. CHR ''-'' \<notin> set (band_text gp w h (6 * k)))
    \<and> count_list (drop (length out) out') (CHR ''-'') = (h + 5) div 6 - 1"
proof -
  let ?n = "(h + 5) div 6"
  let ?f = "\<lambda>k. band_text gp w h (6 * k) @ (if k + 1 < ?n then ''-'' else [])"
  have r: "py_range 0 h 6 = map (\<lambda>k. 6 * k) [0..<?n]" by (rule py_range_6)
  from write_bands_Returned [OF assms]
  have o: "out' = out @ concat (map ?f [0..<?n])"
    by (simp add: r comp_def band_index_sep)
  have d: "CHR ''-'' \<notin> set (band_text gp w h (6 * k))" if "k < ?n" for k
  proof -
    from that have "6 * k < h" by arith
    then show ?thesis by (rule dash_notin_band_text)
  qed
  have "count_list (?f k) (CHR ''-'') = (if k + 1 < ?n then 1 else 0)" if "k < ?n" for k
    using d [OF that] by (simp add: count_list_0_iff)
  then have e: "map (\<lambda>k. count_list (?f k) (CHR ''-'')) [0..<?n]
      = map (\<lambda>k. if k + 1 < ?n then 1 else 0) [0..<?n]"
    by (intro map_cong) simp_all
  have "count_list (concat (map ?f [0..<?n])) (CHR ''-'')
      = sum_list (map (\<lambda>k. count_list (?f k) (CHR ''-'')) [0..<?n])"
    by (simp only: count_list_concat map_map comp_def)
  also have "\<dots> = sum_list (map (\<lambda>k. if k + 1 < ?n then 1 else 0) [0..<?n])"
    by (simp only: e)
  also have "\<dots> = min ?n (?n - 1)" by (rule sum_separators)
  finally have "count_list (concat (map ?f [0..<?n])) (CHR ''-'') = ?n - 1" by simp
  with o have "count_list (drop (length out) out') (CHR ''-'') = ?n - 1" by simp
  with r o d show ?thesis by blast
qed

lemma write_palette_text:
  "write_palette pal ncol n out = Returned out' \<Longrightarrow>
     \<exists>t. out' = out @ t \<and> CHR ''-'' \<notin> set t"
proof (induction pal ncol n out rule: write_palette.induct)
  case (1 pal ncol n out)
  note eq = write_palette.simps [of pal ncol n out]
  show ?case
  proof (cases "n < ncol")
    case False
    with "1.prems" show ?thesis by (simp add: eq)
  next
    case True
    from "1.prems" True obtain r where r: "index pal (n * 3 + 0) = Inr r"
      by (auto simp: eq split: sum.splits)
    from "1.prems" True r obtain g where g: "index pal (n * 3 + 1) = Inr g"
      by (auto simp: eq split: sum.splits)
    from "1.prems" True r g obtain b where b: "index pal (n * 3 + 2) = Inr b"
      by (auto simp: eq split: sum.splits)
    let ?t = "''#'' @ dec n @ '';2;'' @ dec (r * 100 div 256) @ '';''
                            @ dec (g * 100 div 256) @ '';'' @ dec (b * 100 div 256)"
    from "1.prems" True r g b have "write_palette pal ncol (n + 1) (out @ ?t) = Returned out'"
      by (simp add: eq)
    from "1.IH" [OF True r g b this] obtain t where t: "out' = (out @ ?t) @ t" "CHR ''-'' \<notin> set t"
      by blast
    have "CHR ''-'' \<notin> set ?t" by (simp add: dash_notin_dec)
    with t have "out' = out @ (?t @ t) \<and> CHR ''-'' \<notin> set (?t @ t)" by simp
    then show ?thesis by blast
  qed
qed

lemma write_header_dash:
  "\<exists>t. write_header c out = out @ t \<and> CHR ''-'' \<notin> set t"
proof -
  have "CHR ''-'' \<notin> set (DCS c)" by (simp add: DCS_def char_eval)
  then have "CHR ''-'' \<notin> set (DCS c @ ''7;'' @ (if chromakey c then ''2'' else ''1'') @ '';75q'' @ [CHR 0x22]
       @ ''1;1;'' @ dec (width c) @ '';'' @ dec (height c))"
    by (simp add: dash_notin_dec)
  then show ?thesis unfolding write_header_text by blast
qed

lemma ST_dash: "CHR ''-'' \<notin> set (ST c)"
  by (simp add: ST_def char_eval)

lemma write_bands_encoded:
  "write_bands gp w h ys out = Returned out' \<Longrightarrow>
     \<forall>y\<in>set ys. \<exists>buf. band_buf gp w y (min 6 (h - y)) = Inr buf"
proof (induction ys arbitrary: out)
  case Nil
  show ?case by simp
next
  case (Cons y ys)
  from Cons.prems obtain buf where buf: "band_buf gp w y (min 6 (h - y)) = Inr buf"
    by (auto split: sum.splits)
  with Cons.prems Cons.IH show ?case by auto
qed

lemma write_body_section_bands:
  assumes "write_body_section c o1 = Returned out'"
  shows "\<exists>o2. write_palette (palette c) (ncolor c) 0 o1 = Returned o2
     \<and> write_bands (pixel_reader c) (width c) (height c) (py_range 0 (height c) 6) o2 = Returned out'"
proof (cases "0 < alpha_threshold c")
  case True
  with assms obtain rd where rd: "rawdata c = Some rd"
    by (auto simp: write_body_section_def split: option.splits)
  with True assms have "write_body_bandwise c (data c) (Some rd) o1 = Returned out'"
    by (simp add: write_body_section_def)
  with True rd show ?thesis
    by (auto simp: write_body_bandwise_def pixel_reader_def split: outcome.splits)
next
  case False
  with assms have "write_body_bandwise c (data c) None o1 = Returned out'"
    by (simp add: write_body_section_def)
  with False show ?thesis
    by (auto simp: write_body_bandwise_def pixel_reader_def split: outcome.splits)
qed

text \<open>
  Claim C8. Whenever \<^verbatim>\<open>write\<close> returns, the image was cut into \<open>\<lceil>height / 6\<rceil>\<close> bands
  starting at the rows \<open>0, 6, 12, \<dots>\<close>, each of which was encoded; what \<^verbatim>\<open>write\<close>
  appended to the sink is the header (absent in body-only mode), the palette, the texts of
  the bands in order with one \<^verbatim>\<open>-\<close> after every band but the last, and the terminator
  (absent in body-only mode); neither header, palette, terminator nor the text of a band
  contains \<^verbatim>\<open>-\<close>, so the appended text holds exactly \<open>\<lceil>height / 6\<rceil> - 1\<close> of them (none
  for an image of height 0).
\<close>

theorem band_separator_law:
  assumes "write_sixel c body_only out = Returned out'"
  shows "py_range 0 (height c) 6 = map (\<lambda>k. 6 * k) [0..<(height c + 5) div 6]
    \<and> (\<forall>k<(height c + 5) div 6.
          \<exists>buf. band_buf (pixel_reader c) (width c) (6 * k) (min 6 (height c - 6 * k)) = Inr buf)
    \<and> (\<exists>pal. CHR ''-'' \<notin> set pal
          \<and> out' = (if body_only then out else write_header c out) @ pal
              @ concat (map (\<lambda>k. band_text (pixel_reader c) (width c) (height c) (6 * k)
                   @ (if k + 1 < (height c + 5) div 6 then ''-'' else []))
                  [0..<(height c + 5) div 6])
              @ (if body_only then [] else ST c))
    \<and> (\<forall>k<(height c + 5) div 6.
          CHR ''-'' \<notin> set (band_text (pixel_reader c) (width c) (height c) (6 * k)))
    \<and> count_list (drop (length out) out') (CHR ''-'') = (height c + 5) div 6 - 1"
proof -
  let ?n = "(height c + 5) div 6"
  let ?gp = "pixel_reader c"
  let ?o1 = "if \<not> body_only then write_header c out else out"
  let ?st = "if body_only then [] else ST c"
  from assms obtain o3 where body: "write_body_section c ?o1 = Returned o3"
    and out': "out' = o3 @ ?st"
    by (auto simp: write_sixel_def write_terminator_def split: outcome.splits)
  from write_body_section_bands [OF body] obtain o2 where
    pal: "write_palette (palette c) (ncolor c) 0 ?o1 = Returned o2"
    and bands: "write_bands ?gp (width c) (height c) (py_range 0 (height c) 6) o2 = Returned o3"
    by blast
  from write_header_dash [of c out] obtain hd where
    hd: "?o1 = out @ hd" "CHR ''-'' \<notin> set hd"
    by (cases body_only) auto
  from write_palette_text [OF pal] obtain pt where pt: "o2 = ?o1 @ pt" "CHR ''-'' \<notin> set pt"
    by blast
  note law = write_bands_separators [OF bands]
  let ?bands = "concat (map (\<lambda>k. band_text ?gp (width c) (height c) (6 * k)
                   @ (if k + 1 < ?n then ''-'' else [])) [0..<?n])"
  from law have r: "py_range 0 (height c) 6 = map (\<lambda>k. 6 * k) [0..<?n]"
    and o3: "o3 = o2 @ ?bands"
    and nodash: "\<forall>k<?n. CHR ''-'' \<notin> set (band_text ?gp (width c) (height c) (6 * k))"
    and cnt: "count_list (drop (length o2) o3) (CHR ''-'') = ?n - 1"
    by blast+
  from write_bands_encoded [OF bands] r
  have enc: "\<forall>k<?n. \<exists>buf. band_buf ?gp (width c) (6 * k) (min 6 (height c - 6 * k)) = Inr buf"
    by simp
  from out' o3 pt(1) hd(1) have shape: "out' = out @ hd @ pt @ ?bands @ ?st" by simp
  from cnt o3 have "count_list ?bands (CHR ''-'') = ?n - 1" by simp
  moreover have "count_list hd (CHR ''-'') = 0" "count_list pt (CHR ''-'') = 0"
    "count_list ?st (CHR ''-'') = 0"
    using hd(2) pt(2) ST_dash [of c] by (simp_all add: count_list_0_iff)
  ultimately have "count_list (hd @ pt @ ?bands @ ?st) (CHR ''-'') = ?n - 1" by simp
  moreover from shape have "drop (length out) out' = hd @ pt @ ?bands @ ?st" by simp
  ultimately have total: "count_list (drop (length out) out') (CHR ''-'') = ?n - 1" by simp
  from out' o3 pt(1) have "out' = (if body_only then out else write_header c out) @ pt @ ?bands @ ?st"
    by simp
  with pt(2) have "\<exists>pal. CHR ''-'' \<notin> set pal
          \<and> out' = (if body_only then out else write_header c out) @ pal @ ?bands @ ?st"
    by blast
  with r enc nodash total show ?thesis by blast
qed

text \<open>The whole sequence written for the 1\<times>14 image of three bands.\<close>

lemma sixel_1x14:
  "write_sixel image_1x14 False [] =
     Returned ([char_of (0x1b :: nat)] @ ''P7;1;75q'' @ [CHR 0x22]
        @ ''1;1;1;14#0;2;0;0;0#1;2;99;99;99#1A$#0@$--#1B$'' @ [char_of (0x1b :: nat), CHR 0x5C])"
  by (simp add: image_1x14_def write_sixel_def write_header_def write_terminator_def
      write_body_section_def write_body_bandwise_def write_palette.simps py_range.simps
      DCS_def ST_def dec.simps char_eval band_eval write_run_def)

theorem band_separator_law_witness:
  "write_sixel image_1x14 False [] =
     Returned ([char_of (0x1b :: nat)] @ ''P7;1;75q'' @ [CHR 0x22]
        @ ''1;1;1;14#0;2;0;0;0#1;2;99;99;99#1A$#0@$--#1B$'' @ [char_of (0x1b :: nat), CHR 0x5C])
   \<and> py_range 0 (height image_1x14) 6 = [0, 6, 12]
   \<and> count_list ([char_of (0x1b :: nat)] @ ''P7;1;75q'' @ [CHR 0x22]
        @ ''1;1;1;14#0;2;0;0;0#1;2;99;99;99#1A$#0@$--#1B$'' @ [char_of (0x1b :: nat), CHR 0x5C])
       (CHR ''-'') = 2"
proof -
  note law = band_separator_law [OF sixel_1x14]
  from law [THEN conjunct2, THEN conjunct2, THEN conjunct2, THEN conjunct2]
  have "count_list ([char_of (0x1b :: nat)] @ ''P7;1;75q'' @ [CHR 0x22]
        @ ''1;1;1;14#0;2;0;0;0#1;2;99;99;99#1A$#0@$--#1B$'' @ [char_of (0x1b :: nat), CHR 0x5C])
       (CHR ''-'') = 2"
    by (simp add: image_1x14_def)
  moreover from law [THEN conjunct1]
  have "py_range 0 (height image_1x14) 6 = [0, 6, 12]"
    by (simp add: image_1x14_def upt_conv_Cons)
  ultimately show ?thesis using sixel_1x14 by simp
qed

section \<open>Encodes that return\<close>

lemma add_node_returns:
  "readable gp w y band \<Longrightarrow> \<not> isl (add_node gp w y band color start_x seen buf)"
  "readable gp w y band \<Longrightarrow> \<not> isl (add_node_cols gp w y band color x cache run nodes seen buf)"
  "readable gp w y band \<Longrightarrow> x < w \<Longrightarrow> \<not> isl (add_node_rows gp w y band color x i six seen buf)"
proof (induction gp w y band color start_x seen buf
    and gp w y band color x cache run nodes seen buf
    and gp w y band color x i six seen buf
    rule: add_node_add_node_cols_add_node_rows.induct)
  case (1 gp w y band color start_x seen buf)
  let ?init = "if start_x \<noteq> 0 then [(0, start_x)] else []"
  from "1.IH" [OF "1.prems"] obtain r where
    "add_node_cols gp w y band color start_x None 0 ?init seen buf = Inr r"
    by (cases "add_node_cols gp w y band color start_x None 0 ?init seen buf") auto
  then show ?case
    by (simp add: add_node.simps [of gp w y band color start_x seen buf] split: prod.splits)
next
  case (2 gp w y band color x cache run nodes seen buf)
  note eq = add_node_cols.simps [of gp w y band color x cache run nodes seen buf]
  show ?case
  proof (cases "x < w")
    case False
    then show ?thesis by (simp add: eq)
  next
    case True
    from "2.IH"(1) [OF True "2.prems" True] obtain six s1 b1 where
      rr: "add_node_rows gp w y band color x 0 0 seen buf = Inr (six, s1, b1)"
      by (cases "add_node_rows gp w y band color x 0 0 seen buf") auto
    from True rr
    have unf: "add_node_cols gp w y band color x cache run nodes seen buf =
             (case cache of
                None \<Rightarrow> add_node_cols gp w y band color (x + 1) (Some six) 1 nodes s1 b1
              | Some c \<Rightarrow>
                  if six = c
                  then add_node_cols gp w y band color (x + 1) cache (run + 1) nodes s1 b1
                  else add_node_cols gp w y band color (x + 1) (Some six) 1
                         (nodes @ [(c, run)]) s1 b1)"
      by (simp add: eq)
    show ?thesis
    proof (cases cache)
      case None
      from "2.IH"(2) [OF True rr refl refl None "2.prems"] None show ?thesis
        unfolding unf by simp
    next
      case (Some c0)
      show ?thesis
      proof (cases "six = c0")
        case same: True
        from "2.IH"(3) [OF True rr refl refl Some same "2.prems"] Some same show ?thesis
          unfolding unf by simp
      next
        case diff: False
        from "2.IH"(4) [OF True rr refl refl Some diff "2.prems"] Some diff show ?thesis
          unfolding unf by simp
      qed
    qed
  qed
next
  case (3 gp w y band color x i six seen buf)
  note eq = add_node_rows.simps [of gp w y band color x i six seen buf]
  show ?case
  proof (cases "i < band")
    case False
    then show ?thesis by (simp add: eq)
  next
    case True
    with "3.prems" have "\<not> isl (gp (y * w + x + w * i))" unfolding readable_def by blast
    then obtain d where d: "gp (y * w + x + w * i) = Inr d"
      by (cases "gp (y * w + x + w * i)") auto
    consider (bg) "d = BG" | (own) "d \<noteq> BG" "d = color"
      | (new) "d \<noteq> BG" "d \<noteq> color" "d \<notin> seen"
      | (old) "d \<noteq> BG" "d \<noteq> color" "\<not> d \<notin> seen"
      by blast
    then show ?thesis
    proof cases
      case bg
      from "3.IH"(1) [OF True d bg "3.prems"] bg True d show ?thesis by (simp add: eq)
    next
      case own
      from "3.IH"(2) [OF True d own "3.prems"] own True d show ?thesis by (simp add: eq)
    next
      case old
      from "3.IH"(5) [OF True d old "3.prems"] old True d show ?thesis by (simp add: eq)
    next
      case new
      from "3.IH"(3) [OF True d new "3.prems"(1)] obtain s1 b1 where
        rr: "add_node gp w y band d x (insert d seen) buf = Inr (s1, b1)"
        by (cases "add_node gp w y band d x (insert d seen) buf") auto
      from "3.IH"(4) [OF True d new rr refl "3.prems"] new True d rr show ?thesis
        by (simp add: eq)
    qed
  qed
qed

lemma scan_first_returns:
  "readable gp w y band \<Longrightarrow> 0 < band \<Longrightarrow> \<not> isl (scan_first gp w y x)"
proof (induction gp w y x rule: scan_first.induct)
  case (1 gp w y x)
  note eq = scan_first.simps [of gp w y x]
  show ?case
  proof (cases "x < w")
    case False
    then show ?thesis by (simp add: eq)
  next
    case True
    with "1.prems" have "\<not> isl (gp (y * w + x + w * 0))" unfolding readable_def by blast
    then obtain d where d: "gp (y * w + x) = Inr d" by (cases "gp (y * w + x)") auto
    show ?thesis
    proof (cases "d \<noteq> BG")
      case True
      with \<open>x < w\<close> d show ?thesis by (simp add: eq)
    next
      case False
      from "1.IH" [OF True d False "1.prems"] False True d show ?thesis by (simp add: eq)
    qed
  qed
qed

lemma band_buf_returns:
  assumes "readable gp w y band" "0 < band" "0 < w"
  shows "\<exists>buf. band_buf gp w y band = Inr buf"
proof -
  from assms have "\<not> isl (gp (y * w + 0 + w * 0))" unfolding readable_def by blast
  then obtain first where f: "gp (y * w) = Inr first" by (cases "gp (y * w)") auto
  show ?thesis
  proof (cases "first \<noteq> BG")
    case True
    from add_node_returns(1) [OF assms(1), of first 0 "{first}" "[]"] obtain r where
      "add_node gp w y band first 0 {first} [] = Inr r"
      by (cases "add_node gp w y band first 0 {first} []") auto
    with f True show ?thesis by (cases r) (simp add: band_buf_def)
  next
    case False
    from scan_first_returns [OF assms(1,2), of 0] obtain r where
      s: "scan_first gp w y 0 = Inr r"
      by (cases "scan_first gp w y 0") auto
    show ?thesis
    proof (cases r)
      case None
      with f False s show ?thesis by (simp add: band_buf_def)
    next
      case (Some fx)
      obtain found x where fx: "fx = (found, x)" by (cases fx) auto
      from add_node_returns(1) [OF assms(1), of found x "{found}" "[]"] obtain r' where
        "add_node gp w y band found x {found} [] = Inr r'"
        by (cases "add_node gp w y band found x {found} []") auto
      with f False s Some fx show ?thesis by (cases r') (simp add: band_buf_def)
    qed
  qed
qed

lemma write_bands_returns:
  "\<forall>y\<in>set ys. \<exists>buf. band_buf gp w y (min 6 (h - y)) = Inr buf \<Longrightarrow>
     \<exists>out'. write_bands gp w h ys out = Returned out'"
proof (induction ys arbitrary: out)
  case Nil
  show ?case by simp
next
  case (Cons y ys)
  from Cons.prems obtain buf where "band_buf gp w y (min 6 (h - y)) = Inr buf" by auto
  moreover from Cons.prems have "\<forall>y\<in>set ys. \<exists>buf. band_buf gp w y (min 6 (h - y)) = Inr buf"
    by simp
  ultimately show ?case using Cons.IH by simp
qed

lemma write_palette_returns:
  "3 * ncol \<le> length pal \<Longrightarrow> \<exists>out'. write_palette pal ncol n out = Returned out'"
proof (induction pal ncol n out rule: write_palette.induct)
  case (1 pal ncol n out)
  note eq = write_palette.simps [of pal ncol n out]
  show ?case
  proof (cases "n < ncol")
    case False
    then show ?thesis by (simp add: eq)
  next
    case True
    with "1.prems" have lt: "n * 3 < length pal" "n * 3 + 1 < length pal" "n * 3 + 2 < length pal"
      by simp_all
    then have i: "index pal (n * 3 + 0) = Inr (pal ! (n * 3))"
      "index pal (n * 3 + 1) = Inr (pal ! (n * 3 + 1))"
      "index pal (n * 3 + 2) = Inr (pal ! (n * 3 + 2))"
      by (simp_all add: index_def)
    from "1.IH" [OF True i "1.prems"] True i show ?thesis by (simp add: eq)
  qed
qed

lemma in_py_range_6: "y \<in> set (py_range 0 h 6) \<Longrightarrow> y < h"
  by (auto simp: py_range_6)

lemma band_height_positive:
  "y \<in> set (py_range 0 h 6) \<Longrightarrow> 0 < min 6 (h - y) \<and> min 6 (h - y) \<le> 6"
  by (auto dest: in_py_range_6)

lemma pixel_index_in_range:
  assumes "x < w" "j < min 6 (h - y)"
  shows "y * w + x + w * j < w * (h :: nat)"
proof -
  from assms(2) have "j < h - y" by simp
  then have "y + j + 1 \<le> h" by arith
  then have "(y + j + 1) * w \<le> h * w" by (rule mult_le_mono1)
  moreover from assms(1) have "y * w + x + w * j < (y + j + 1) * w" by (simp add: algebra_simps)
  ultimately show ?thesis by (simp add: mult.commute)
qed

lemma get_pixel_readable:
  assumes "w * h \<le> length dat" "\<forall>rd. raw = Some rd \<longrightarrow> w * h \<le> length rd"
  shows "readable (get_pixel thr dat raw) w y (min 6 (h - y))"
  unfolding readable_def
proof (intro allI impI)
  fix x j
  assume "x < w \<and> j < min 6 (h - y)"
  then have "y * w + x + w * j < w * h" by (simp add: pixel_index_in_range)
  with assms have "y * w + x + w * j < length dat"
    "\<forall>rd. raw = Some rd \<longrightarrow> y * w + x + w * j < length rd"
    by auto
  then show "\<not> isl (get_pixel thr dat raw (y * w + x + w * j))"
    by (auto simp: get_pixel_def index_def split: option.splits prod.splits)
qed

lemma write_body_bandwise_returns:
  assumes "width c * height c \<le> length dat"
    "\<forall>rd. raw = Some rd \<longrightarrow> width c * height c \<le> length rd"
    "3 * ncolor c \<le> length (palette c)" "0 < width c \<or> height c = 0"
  shows "\<exists>out'. write_body_bandwise c dat raw out = Returned out'"
proof -
  let ?gp = "get_pixel (alpha_threshold c) dat raw"
  from write_palette_returns [OF assms(3)] obtain o1 where
    p: "write_palette (palette c) (ncolor c) 0 out = Returned o1" by blast
  have "\<exists>buf. band_buf ?gp (width c) y (min 6 (height c - y)) = Inr buf"
    if "y \<in> set (py_range 0 (height c) 6)" for y
  proof -
    from that have y: "y < height c" by (rule in_py_range_6)
    with assms(4) have "0 < width c" by auto
    moreover from y have "0 < min 6 (height c - y)" by simp
    moreover from assms(1,2) have "readable ?gp (width c) y (min 6 (height c - y))"
      by (rule get_pixel_readable)
    ultimately show ?thesis by (intro band_buf_returns)
  qed
  then have "\<exists>out'. write_bands ?gp (width c) (height c) (py_range 0 (height c) 6) o1 = Returned out'"
    by (intro write_bands_returns) blast
  with p show ?thesis by (simp add: write_body_bandwise_def)
qed

text \<open>
  With a pixel buffer (and RGBA buffer, when alpha handling is on) of at least
  \<open>width * height\<close> entries and a palette of at least \<open>3 * ncolor\<close>, the encode
  returns.
\<close>

lemma write_sixel_returns:
  assumes "width c * height c \<le> length (data c)" "3 * ncolor c \<le> length (palette c)"
    "0 < width c \<or> height c = 0"
    "0 < alpha_threshold c \<longrightarrow> (\<exists>rd. rawdata c = Some rd \<and> width c * height c \<le> length rd)"
  shows "\<exists>out'. write_sixel c body_only out = Returned out'"
proof -
  have "\<exists>out'. write_body_section c o1 = Returned out'" for o1
  proof (cases "0 < alpha_threshold c")
    case True
    with assms(4) obtain rd where rd: "rawdata c = Some rd" "width c * height c \<le> length rd"
      by blast
    then have "\<forall>rd'. Some rd = Some rd' \<longrightarrow> width c * height c \<le> length rd'" by simp
    from write_body_bandwise_returns [OF assms(1) this assms(2,3)] True rd(1)
    show ?thesis by (simp add: write_body_section_def)
  next
    case False
    have "\<forall>rd'. None = Some rd' \<longrightarrow> width c * height c \<le> length (rd' :: rgba list)" by simp
    from write_body_bandwise_returns [OF assms(1) this assms(2,3)] False
    show ?thesis by (simp add: write_body_section_def)
  qed
  then obtain out' where
    "write_body_section c (if \<not> body_only then write_header c out else out) = Returned out'"
    by blast
  then show ?thesis by (simp add: write_sixel_def)
qed

text \<open>
  A read of the unset attribute \<^verbatim>\<open>rawdata\<close> would come after the header, too.
\<close>

lemma missing_rawdata_raises:
  "0 < alpha_threshold c \<Longrightarrow> rawdata c = None \<Longrightarrow>
     write_sixel c False out = Raised AttributeError (write_header c out)"
  by (simp add: write_sixel_def write_body_section_def)

section \<open>Reads past the end of the pixel buffer\<close>

lemma add_node_raises:
  "\<exists>x j e. start_x \<le> x \<and> x < w \<and> j < band \<and> gp (y * w + x + w * j) = Inl e \<Longrightarrow>
     isl (add_node gp w y band color start_x seen buf)"
  "\<exists>x' j e. x \<le> x' \<and> x' < w \<and> j < band \<and> gp (y * w + x' + w * j) = Inl e \<Longrightarrow>
     isl (add_node_cols gp w y band color x cache run nodes seen buf)"
  "\<exists>j e. i \<le> j \<and> j < band \<and> gp (y * w + x + w * j) = Inl e \<Longrightarrow>
     isl (add_node_rows gp w y band color x i six seen buf)"
proof (induction gp w y band color start_x seen buf
    and gp w y band color x cache run nodes seen buf
    and gp w y band color x i six seen buf
    rule: add_node_add_node_cols_add_node_rows.induct)
  case (1 gp w y band color start_x seen buf)
  from "1.IH" [OF "1.prems"] show ?case
    by (auto simp: add_node.simps [of gp w y band color start_x seen buf] isl_def)
next
  case (2 gp w y band color x cache run nodes seen buf)
  note eq = add_node_cols.simps [of gp w y band color x cache run nodes seen buf]
  from "2.prems" obtain x' j e where
    f: "x \<le> x'" "x' < w" "j < band" "gp (y * w + x' + w * j) = Inl e"
    by blast
  then have True: "x < w" by simp
  show ?case
  proof (cases "add_node_rows gp w y band color x 0 0 seen buf")
    case (Inl e')
    with True show ?thesis by (simp add: eq)
  next
    case (Inr r)
    obtain six s1 b1 where r: "r = (six, s1, b1)" by (cases r) auto
    with Inr have rr: "add_node_rows gp w y band color x 0 0 seen buf = Inr (six, s1, b1)" by simp
    have "x' \<noteq> x"
    proof
      assume "x' = x"
      with f have "\<exists>j e. 0 \<le> j \<and> j < band \<and> gp (y * w + x + w * j) = Inl e" by blast
      from "2.IH"(1) [OF True this] rr show False by simp
    qed
    with f have next_fails: "\<exists>x' j e. x + 1 \<le> x' \<and> x' < w \<and> j < band \<and> gp (y * w + x' + w * j) = Inl e"
      by (intro exI [of _ x'] exI [of _ j] exI [of _ e]) simp
    from True rr
    have unf: "add_node_cols gp w y band color x cache run nodes seen buf =
             (case cache of
                None \<Rightarrow> add_node_cols gp w y band color (x + 1) (Some six) 1 nodes s1 b1
              | Some c \<Rightarrow>
                  if six = c
                  then add_node_cols gp w y band color (x + 1) cache (run + 1) nodes s1 b1
                  else add_node_cols gp w y band color (x + 1) (Some six) 1
                         (nodes @ [(c, run)]) s1 b1)"
      by (simp add: eq)
    show ?thesis
    proof (cases cache)
      case None
      from "2.IH"(2) [OF True rr refl refl None next_fails] None show ?thesis
        unfolding unf by simp
    next
      case (Some c0)
      show ?thesis
      proof (cases "six = c0")
        case same: True
        from "2.IH"(3) [OF True rr refl refl Some same next_fails] Some same show ?thesis
          unfolding unf by simp
      next
        case diff: False
        from "2.IH"(4) [OF True rr refl refl Some diff next_fails] Some diff show ?thesis
          unfolding unf by simp
      qed
    qed
  qed
next
  case (3 gp w y band color x i six seen buf)
  note eq = add_node_rows.simps [of gp w y band color x i six seen buf]
  from "3.prems" obtain j e where f: "i \<le> j" "j < band" "gp (y * w + x + w * j) = Inl e"
    by blast
  then have True: "i < band" by simp
  show ?case
  proof (cases "gp (y * w + x + w * i)")
    case (Inl e')
    with True show ?thesis by (simp add: eq)
  next
    case (Inr d)
    with f have "j \<noteq> i" by auto
    with f have next_fails: "\<exists>j e. i + 1 \<le> j \<and> j < band \<and> gp (y * w + x + w * j) = Inl e"
      by (intro exI [of _ j] exI [of _ e]) simp
    consider (bg) "d = BG" | (own) "d \<noteq> BG" "d = color"
      | (new) "d \<noteq> BG" "d \<noteq> color" "d \<notin> seen"
      | (old) "d \<noteq> BG" "d \<noteq> color" "\<not> d \<notin> seen"
      by blast
    then show ?thesis
    proof cases
      case bg
      from "3.IH"(1) [OF True Inr bg next_fails] bg True Inr show ?thesis by (simp add: eq)
    next
      case own
      from "3.IH"(2) [OF True Inr own next_fails] own True Inr show ?thesis by (simp add: eq)
    next
      case old
      from "3.IH"(5) [OF True Inr old next_fails] old True Inr show ?thesis by (simp add: eq)
    next
      case new
      show ?thesis
      proof (cases "add_node gp w y band d x (insert d seen) buf")
        case (Inl e')
        with new True Inr show ?thesis by (simp add: eq)
      next
        case r: (Inr r)
        obtain s1 b1 where "r = (s1, b1)" by (cases r) auto
        with r have rr: "add_node gp w y band d x (insert d seen) buf = Inr (s1, b1)" by simp
        from "3.IH"(4) [OF True Inr new rr refl next_fails] new True Inr rr show ?thesis
          by (simp add: eq)
      qed
    qed
  qed
qed

lemma band_buf_raises:
  assumes "\<exists>x j e. x < w \<and> j < band \<and> gp (y * w + x + w * j) = Inl e"
    and "\<forall>first. gp (y * w) = Inr first \<longrightarrow> first \<noteq> BG"
  shows "isl (band_buf gp w y band)"
proof (cases "gp (y * w)")
  case (Inl e)
  then show ?thesis by (simp add: band_buf_def)
next
  case (Inr first)
  with assms(2) have "first \<noteq> BG" by simp
  moreover from assms(1) have "isl (add_node gp w y band first 0 {first} [])"
    by (intro add_node_raises(1)) simp
  ultimately show ?thesis using Inr by (auto simp: band_buf_def isl_def)
qed

lemma write_bands_raises:
  assumes "y \<in> set ys" "isl (band_buf gp w y (min 6 (h - y)))"
  shows "\<exists>e out'. write_bands gp w h ys out = Raised e out'"
  using assms(1)
proof (induction ys arbitrary: out)
  case Nil
  then show ?case by simp
next
  case (Cons a ys)
  show ?case
  proof (cases "band_buf gp w a (min 6 (h - a))")
    case (Inl e)
    then show ?thesis by simp
  next
    case (Inr buf)
    with assms(2) have "a \<noteq> y" by auto
    with Cons.prems have "y \<in> set ys" by simp
    from Cons.IH [OF this] Inr show ?thesis by simp
  qed
qed

lemma last_pixel:
  assumes "0 < w" "0 < h"
  shows "6 * ((h - 1) div 6) \<in> set (py_range 0 h 6)"
    and "(h - 1) mod 6 < min 6 (h - 6 * ((h - 1) div 6))"
    and "6 * ((h - 1) div 6) * w + (w - 1) + w * ((h - 1) mod 6) = w * h - 1"
proof -
  define q r where "q = (h - 1) div 6" and "r = (h - 1) mod 6"
  have r: "r < 6" by (simp add: r_def)
  have "h - 1 = 6 * q + r" by (simp add: q_def r_def)
  with assms(2) have h: "h = 6 * q + r + 1" by simp
  from r have "(6 * q + r + 1 + 5) div 6 = q + 1" by simp
  then have "q < (h + 5) div 6" by (simp add: h)
  then show "6 * ((h - 1) div 6) \<in> set (py_range 0 h 6)"
    unfolding q_def [symmetric] by (simp add: py_range_6)
  from r show "(h - 1) mod 6 < min 6 (h - 6 * ((h - 1) div 6))"
    unfolding q_def [symmetric] r_def [symmetric] by (simp add: h)
  from assms(1) obtain w' where w: "w = Suc w'" by (cases w) auto
  show "6 * ((h - 1) div 6) * w + (w - 1) + w * ((h - 1) mod 6) = w * h - 1"
    unfolding q_def [symmetric] r_def [symmetric] by (simp add: h w algebra_simps)
qed

text \<open>
  Claim C10, as amended. Nothing is validated before encoding. A pixel buffer shorter
  than \<open>width * height\<close> (no alpha handling, no entry equal to the sentinel) makes
  every encode raise, but only when a band's scan reaches a missing pixel or, before
  that, the palette is read past its end: by then the encode has written to the sink, in
  full mode at least the introducer and the header, and what it wrote stays there.
\<close>

theorem short_buffer_raises_midstream:
  assumes "alpha_threshold c \<le> 0" "BG \<notin> set (data c)" "length (data c) < width c * height c"
  shows "\<exists>e out'. write_sixel c body_only out = Raised e out'
     \<and> prefix (if body_only then out else write_header c out) out'"
proof -
  let ?gp = "get_pixel (alpha_threshold c) (data c) None"
  let ?w = "width c" and ?h = "height c"
  let ?y = "6 * ((?h - 1) div 6)"
  from assms(3) have pos: "0 < ?w" "0 < ?h" by (auto intro: Nat.gr0I)
  note lp = last_pixel [OF pos]
  from assms(3) pos have "\<not> ?w * ?h - 1 < length (data c)" by simp
  then have "?gp (?w * ?h - 1) = Inl IndexError" by (simp add: get_pixel_def index_def)
  with lp(3) have "?gp (?y * ?w + (?w - 1) + ?w * ((?h - 1) mod 6)) = Inl IndexError" by simp
  with pos lp(2) have "\<exists>x j e. x < ?w \<and> j < min 6 (?h - ?y) \<and> ?gp (?y * ?w + x + ?w * j) = Inl e"
    by (intro exI [of _ "?w - 1"] exI [of _ "(?h - 1) mod 6"] exI [of _ IndexError]) simp
  moreover from assms(2) have "\<forall>first. ?gp (?y * ?w) = Inr first \<longrightarrow> first \<noteq> BG"
    by (auto simp: get_pixel_def index_def split: if_splits dest: nth_mem)
  ultimately have "isl (band_buf ?gp ?w ?y (min 6 (?h - ?y)))" by (rule band_buf_raises)
  with lp(1) have bands: "\<exists>e out'. write_bands ?gp ?w ?h (py_range 0 ?h 6) o1 = Raised e out'" for o1
    by (rule write_bands_raises)
  have "\<exists>e out'. write_body_bandwise c (data c) None o1 = Raised e out'" for o1
  proof (cases "write_palette (palette c) (ncolor c) 0 o1")
    case (Returned o2)
    with bands [of o2] show ?thesis by (simp add: write_body_bandwise_def)
  next
    case (Raised e o2)
    then show ?thesis by (simp add: write_body_bandwise_def)
  qed
  with assms(1) have "\<exists>e out'. write_body_section c o1 = Raised e out'" for o1
    by (simp add: write_body_section_def)
  then obtain e out' where
    "write_body_section c (if \<not> body_only then write_header c out else out) = Raised e out'"
    by blast
  then have r: "write_sixel c body_only out = Raised e out'" by (simp add: write_sixel_def)
  with prefix_sink_write_sixel [of body_only out c]
  have "prefix (if body_only then out else write_header c out) out'" by (simp add: sink_def)
  with r show ?thesis by blast
qed

theorem short_buffer_raises_midstream_witness:
  "write_sixel (image_2x2\<lparr>data := [0, 1]\<rparr>) False [] =
       Raised IndexError ([char_of (0x1b :: nat)] @ ''P7;1;75q'' @ [CHR 0x22]
          @ ''1;1;2;2#0;2;0;0;0#1;2;99;99;99'')
   \<and> prefix ([char_of (0x1b :: nat)] @ ''P7;1;75q'' @ [CHR 0x22] @ ''1;1;2;2'')
        ([char_of (0x1b :: nat)] @ ''P7;1;75q'' @ [CHR 0x22]
          @ ''1;1;2;2#0;2;0;0;0#1;2;99;99;99'')"
proof -
  have e: "write_sixel (image_2x2\<lparr>data := [0, 1]\<rparr>) False [] =
       Raised IndexError ([char_of (0x1b :: nat)] @ ''P7;1;75q'' @ [CHR 0x22]
          @ ''1;1;2;2#0;2;0;0;0#1;2;99;99;99'')"
    by (simp add: image_2x2_def write_sixel_def write_header_def
      write_body_section_def write_body_bandwise_def write_palette.simps py_range.simps
      DCS_def dec.simps char_eval band_eval)
  have "alpha_threshold (image_2x2\<lparr>data := [0, 1]\<rparr>) \<le> 0"
    "BG \<notin> set (data (image_2x2\<lparr>data := [0, 1]\<rparr>))"
    "length (data (image_2x2\<lparr>data := [0, 1]\<rparr>))
       < width (image_2x2\<lparr>data := [0, 1]\<rparr>) * height (image_2x2\<lparr>data := [0, 1]\<rparr>)"
    by (simp_all add: image_2x2_def BG_def)
  from short_buffer_raises_midstream [OF this, of False "[]"] e
  show ?thesis by (simp add: write_header_text image_2x2_def DCS_def)
qed

text \<open>
  Claim C10 as stated fails on the 2\<times>2 image with three pixels: the buffer length
  differs from \<open>width * height\<close>, the encode raises, and the sink holds the
  introducer, the header and the palette definitions.
\<close>

theorem partial_write_counterexample:
  "length (data image_short) \<noteq> width image_short * height image_short
   \<and> write_sixel image_short False [] =
       Raised IndexError ([char_of (0x1b :: nat)] @ ''P7;1;75q'' @ [CHR 0x22]
          @ ''1;1;2;2#0;2;0;0;0#1;2;99;99;99'')"
  by (simp add: image_short_def image_2x2_def write_sixel_def write_header_def
      write_body_section_def write_body_bandwise_def write_palette.simps py_range.simps
      DCS_def dec.simps char_eval band_eval)

end
